theory Spec2Isabelle
  imports
    Complex_Main
    "HOL-Library.Char_ord"
    "HOL-Library.List_Lexorder"
    "HOL-Library.Multiset"
    "HOL-Library.AList"
begin

unbundle bit_operations_syntax

section \<open>Text\<close>

text \<open>
  A Python \<open>str\<close> is a sequence of code points. The model writes a text as a
  \<^typ>\<open>string\<close> and reads each \<^typ>\<open>char\<close> as one code point below 256; the
  character classes below are Python's own classes on that range
  (\<open>str.isspace\<close>, \<open>str.isdigit\<close>, \<open>str.islower\<close>, \<open>str.isupper\<close>, and the
  \<open>\d\<close>, \<open>\w\<close>, \<open>\s\<close> of the \<open>re\<close> module on \<open>str\<close> patterns).
\<close>

definition in_range :: "char \<Rightarrow> nat \<Rightarrow> nat \<Rightarrow> bool" where
  "in_range c lo hi = (lo \<le> (of_char c :: nat) \<and> (of_char c :: nat) \<le> hi)"

definition is_space :: "char \<Rightarrow> bool" where
  \<comment> \<open>\<open>str.isspace\<close> on one character: TAB..CR, FS..US, SPACE, NEL, NBSP\<close>
  "is_space c = (in_range c 9 13 \<or> in_range c 28 32 \<or> in_range c 133 133 \<or> in_range c 160 160)"

definition is_ascii_digit :: "char \<Rightarrow> bool" where
  "is_ascii_digit c = in_range c 48 57"

definition is_digit_char :: "char \<Rightarrow> bool" where
  \<comment> \<open>\<open>str.isdigit\<close> on one character: the decimal digits and the superscripts 2, 3, 1\<close>
  "is_digit_char c = (is_ascii_digit c \<or> in_range c 178 179 \<or> in_range c 185 185)"

definition is_lower_char :: "char \<Rightarrow> bool" where
  "is_lower_char c = (in_range c 97 122 \<or> in_range c 170 170 \<or> in_range c 181 181 \<or>
     in_range c 186 186 \<or> in_range c 223 246 \<or> in_range c 248 255)"

definition is_upper_char :: "char \<Rightarrow> bool" where
  "is_upper_char c = (in_range c 65 90 \<or> in_range c 192 214 \<or> in_range c 216 222)"

definition isupper :: "string \<Rightarrow> bool" where
  \<comment> \<open>\<open>str.isupper\<close>: no lower-case character and at least one upper-case one\<close>
  "isupper s = ((\<forall>c \<in> set s. \<not> is_lower_char c) \<and> (\<exists>c \<in> set s. is_upper_char c))"

definition isdigit :: "string \<Rightarrow> bool" where
  "isdigit s = (s \<noteq> [] \<and> (\<forall>c \<in> set s. is_digit_char c))"

definition strip :: "string \<Rightarrow> string" where
  "strip s = rev (dropWhile is_space (rev (dropWhile is_space s)))"

definition rstrip :: "string \<Rightarrow> string" where
  "rstrip s = rev (dropWhile is_space (rev s))"

definition startswith :: "string \<Rightarrow> string \<Rightarrow> bool" where
  "startswith s p = (take (length p) s = p)"

definition endswith :: "string \<Rightarrow> string \<Rightarrow> bool" where
  "endswith s p = (length p \<le> length s \<and> drop (length s - length p) s = p)"

fun contains :: "string \<Rightarrow> string \<Rightarrow> bool" where
  \<comment> \<open>\<open>sub in s\<close>\<close>
  "contains [] sub = (sub = [])"
| "contains (c # cs) sub = (startswith (c # cs) sub \<or> contains cs sub)"

definition split_on :: "char \<Rightarrow> string \<Rightarrow> string list" where
  \<comment> \<open>\<open>s.split(sep)\<close> for a separator of one character\<close>
  "split_on sep s =
     foldr (\<lambda>c acc. if c = sep then [] # acc else (c # hd acc) # tl acc) s [[]]"

fun join :: "string \<Rightarrow> string list \<Rightarrow> string" where
  \<comment> \<open>\<open>sep.join(parts)\<close>\<close>
  "join sep [] = []"
| "join sep [p] = p"
| "join sep (p # q # ps) = p @ sep @ join sep (q # ps)"

definition split_ws :: "string \<Rightarrow> string list" where
  \<comment> \<open>\<open>s.split()\<close>: the maximal runs of characters that are not whitespace\<close>
  "split_ws s =
     (case foldr (\<lambda>c (cur, acc). if is_space c then ([], if cur = [] then acc else cur # acc)
                               else (c # cur, acc)) s ([], [])
      of (cur, acc) \<Rightarrow> if cur = [] then acc else cur # acc)"

definition lower_char :: "char \<Rightarrow> char" where
  "lower_char c = (if is_upper_char c then char_of (of_char c + (32 :: nat)) else c)"

definition lower :: "string \<Rightarrow> string" where
  \<comment> \<open>\<open>str.lower\<close>\<close>
  "lower s = map lower_char s"

definition digit_char :: "nat \<Rightarrow> char" where
  "digit_char d = char_of (48 + d)"

function digits_of :: "nat \<Rightarrow> string" where
  \<comment> \<open>\<open>str(n)\<close> for a natural number\<close>
  "digits_of n = (if n < 10 then [digit_char n] else digits_of (n div 10) @ [digit_char (n mod 10)])"
  by pat_completeness auto
termination
  by (relation "measure (\<lambda>n. n)") auto

declare digits_of.simps [simp del]

definition zero_pad :: "nat \<Rightarrow> string \<Rightarrow> string" where
  "zero_pad width s = replicate (width - length s) CHR ''0'' @ s"

definition fmt_03d :: "int \<Rightarrow> string" where
  \<comment> \<open>the format specification \<open>:03d\<close>: at least three characters, the sign included\<close>
  "fmt_03d n = (if n < 0 then CHR ''-'' # zero_pad 2 (digits_of (nat (- n)))
                else zero_pad 3 (digits_of (nat n)))"

datatype error = KeyError | IndexError | TypeError | ValueError | AttributeError

section \<open>Configuration\<close>

datatype prompt_type = Default | Alternative

fun prompt_name :: "prompt_type \<Rightarrow> string" where
  "prompt_name Default = ''default''"
| "prompt_name Alternative = ''alternative''"

text \<open>
  A prompt template is a Python format string. The model holds it parsed: literal text
  and named replacement fields, in order.
\<close>

datatype tpart = Lit string | Field string

type_synonym template = "tpart list"

record storage_config =
  provider :: string
  project_id :: "string option"
  bucket_name :: "string option"
  credentials_path :: "string option"

record ollama_config =
  model_name :: string
  base_url :: string
  retries :: int
  retry_delay :: nat

record output_config =
  base_folder :: string
  subfolder_names :: "string \<rightharpoonup> string"

record config =
  storage :: storage_config
  output_cfg :: output_config
  ollama :: ollama_config
  keywords_cfg :: "string list"
  prompts :: "string \<rightharpoonup> template"

section \<open>Findings\<close>

text \<open>
  A finding is the dictionary \<open>_create_metadata\<close> builds. The prompt builder asks for
  each key before it reads it, so the keys it tests are optional here.
\<close>

record occ_location =
  page_number :: "string option"
  line_number :: "string option"

record occ_content =
  selected_text :: "string option"
  full_extracted_part :: "string option"

record occurrence =
  source_file :: string
  location :: "occ_location option"
  content :: "occ_content option"
  extraction_timestamp :: string

section \<open>Prompt builder\<close>

definition pages_add :: "string list \<Rightarrow> string \<Rightarrow> string list" where
  \<comment> \<open>\<open>pages.add(x)\<close>: the set as the list of its members, each once\<close>
  "pages_add ps x = (if x \<in> set ps then ps else ps @ [x])"

definition occ_page :: "occurrence \<Rightarrow> string option" where
  "occ_page occ = (case location occ of None \<Rightarrow> None | Some l \<Rightarrow> page_number l)"

definition collect_pages :: "occurrence list \<Rightarrow> string list" where
  "collect_pages occs =
     foldl (\<lambda>ps occ. case occ_page occ of None \<Rightarrow> ps | Some p \<Rightarrow> pages_add ps p) [] occs"

definition get_or_empty :: "string option \<Rightarrow> string" where
  \<comment> \<open>\<open>d.get(key, '')\<close>\<close>
  "get_or_empty v = (case v of None \<Rightarrow> [] | Some s \<Rightarrow> s)"

definition occ_text :: "occurrence \<Rightarrow> string" where
  "occ_text occ =
     (case content occ of
        None \<Rightarrow> []
      | Some c \<Rightarrow>
          (let selected = strip (get_or_empty (selected_text c));
               full_context = strip (get_or_empty (full_extracted_part c))
           in if full_context \<noteq> [] then full_context else selected))"

definition merged_content :: "occurrence list \<Rightarrow> string list" where
  "merged_content occs = filter (\<lambda>t. t \<noteq> []) (map occ_text occs)"

datatype sort_key = KInt int | KStr string

definition digit_value :: "char \<Rightarrow> int" where
  "digit_value c = int (of_char c) - 48"

definition int_of_digits :: "string \<Rightarrow> int" where
  "int_of_digits s = foldl (\<lambda>n c. 10 * n + digit_value c) 0 s"

definition valid_int_body :: "string \<Rightarrow> bool" where
  \<comment> \<open>decimal digits, with single underscores allowed between them\<close>
  "valid_int_body b =
     (b \<noteq> [] \<and> is_ascii_digit (hd b) \<and> is_ascii_digit (last b) \<and>
      (\<forall>c \<in> set b. is_ascii_digit c \<or> c = CHR ''_'') \<and> \<not> contains b ''__'')"

definition py_int :: "string \<Rightarrow> error + int" where
  \<comment> \<open>\<open>int(s)\<close>: surrounding whitespace, an optional sign, then the digits. The
      interpreter's limit on the number of digits is not modelled.\<close>
  "py_int s =
     (let t = strip s;
          signed = (t \<noteq> [] \<and> (hd t = CHR ''-'' \<or> hd t = CHR ''+''));
          body = (if signed then tl t else t);
          magnitude = int_of_digits (filter (\<lambda>c. c \<noteq> CHR ''_'') body)
      in if valid_int_body body
         then Inr (if signed \<and> hd t = CHR ''-'' then - magnitude else magnitude)
         else Inl ValueError)"

definition page_key :: "string \<Rightarrow> error + sort_key" where
  \<comment> \<open>\<open>int(str(x)) if str(x).isdigit() else x\<close>\<close>
  "page_key x =
     (if isdigit x
      then (case py_int x of Inl e \<Rightarrow> Inl e | Inr n \<Rightarrow> Inr (KInt n))
      else Inr (KStr x))"

fun the_int :: "sort_key \<Rightarrow> int" where
  "the_int (KInt n) = n"
| "the_int (KStr s) = 0"

fun is_int_key :: "sort_key \<Rightarrow> bool" where
  "is_int_key (KInt n) = True"
| "is_int_key (KStr s) = False"

fun all_keys :: "string list \<Rightarrow> error + (string \<times> sort_key) list" where
  "all_keys [] = Inr []"
| "all_keys (x # xs) =
     (case page_key x of
        Inl e \<Rightarrow> Inl e
      | Inr k \<Rightarrow> (case all_keys xs of Inl e \<Rightarrow> Inl e | Inr ks \<Rightarrow> Inr ((x, k) # ks)))"

definition sorted_pages :: "string list \<Rightarrow> error + string list" where
  \<comment> \<open>\<open>sorted(pages, key=...)\<close>: every key is computed first; the sort is stable; comparing
      an \<open>int\<close> key with a \<open>str\<close> key raises \<open>TypeError\<close>\<close>
  "sorted_pages xs =
     (case all_keys xs of
        Inl e \<Rightarrow> Inl e
      | Inr ks \<Rightarrow>
          if \<forall>p \<in> set ks. is_int_key (snd p) then Inr (map fst (sort_key (\<lambda>p. the_int (snd p)) ks))
          else if \<forall>p \<in> set ks. \<not> is_int_key (snd p) then Inr (sort_key (\<lambda>x. x) (map fst ks))
          else Inl TypeError)"

fun format_template :: "template \<Rightarrow> (string \<rightharpoonup> string) \<Rightarrow> error + string" where
  \<comment> \<open>\<open>template.format(**kwargs)\<close>\<close>
  "format_template [] kwargs = Inr []"
| "format_template (Lit s # ps) kwargs =
     (case format_template ps kwargs of Inl e \<Rightarrow> Inl e | Inr r \<Rightarrow> Inr (s @ r))"
| "format_template (Field f # ps) kwargs =
     (case kwargs f of
        None \<Rightarrow> Inl KeyError
      | Some v \<Rightarrow> (case format_template ps kwargs of Inl e \<Rightarrow> Inl e | Inr r \<Rightarrow> Inr (v @ r)))"

definition formatted_pages :: "(string list \<Rightarrow> string list) \<Rightarrow> occurrence list \<Rightarrow> error + string" where
  \<comment> \<open>\<open>set_order\<close> is the order in which Python iterates over the set of pages\<close>
  "formatted_pages set_order occs =
     (case sorted_pages (set_order (collect_pages occs)) of
        Inl e \<Rightarrow> Inl e
      | Inr ps \<Rightarrow> Inr (join '', '' (take 2 ps)))"

definition prompt_fields :: "string \<Rightarrow> string \<Rightarrow> string \<Rightarrow> string \<Rightarrow> (string \<rightharpoonup> string)" where
  "prompt_fields keyword policy_doc_name pages text =
     [''keyword'' \<mapsto> keyword, ''policy_doc_name'' \<mapsto> policy_doc_name,
      ''formatted_pages'' \<mapsto> pages, ''content'' \<mapsto> text]"

definition generate_prompt ::
  "config \<Rightarrow> (string list \<Rightarrow> string list) \<Rightarrow> string \<Rightarrow> string \<Rightarrow> occurrence list \<Rightarrow>
   prompt_type \<Rightarrow> error + string" where
  "generate_prompt cfg set_order policy_doc_name keyword occs pt =
     (case formatted_pages set_order occs of
        Inl e \<Rightarrow> Inl e
      | Inr pages \<Rightarrow>
          (case prompts cfg (prompt_name pt) of
             None \<Rightarrow> Inl KeyError
           | Some template \<Rightarrow>
               format_template template
                 (prompt_fields keyword policy_doc_name pages (join '' '' (merged_content occs)))))"

section \<open>Response parsing\<close>

record qa_pair =
  question :: string
  answer :: string

definition truthy :: "string option \<Rightarrow> bool" where
  "truthy v = (case v of None \<Rightarrow> False | Some s \<Rightarrow> s \<noteq> [])"

definition valid_pair :: "prompt_type \<Rightarrow> string \<Rightarrow> string \<Rightarrow> bool" where
  "valid_pair pt q a =
     (pt = Alternative \<or>
      (pt = Default \<and> endswith q ''?'' \<and> (contains q ''based on'' \<or> contains q ''as per'') \<and>
       endswith a '')''))"

definition flush_pair ::
  "prompt_type \<Rightarrow> qa_pair list \<Rightarrow> string option \<Rightarrow> string option \<Rightarrow> qa_pair list" where
  \<comment> \<open>the block the source repeats at each \<open>Q:\<close> line and after the loop\<close>
  "flush_pair pt qa_pairs current_q current_a =
     (if truthy current_q \<and> truthy current_a \<and> valid_pair pt (the current_q) (the current_a)
      then qa_pairs @ [\<lparr>question = the current_q, answer = the current_a\<rparr>]
      else qa_pairs)"

definition parse_line ::
  "prompt_type \<Rightarrow> qa_pair list \<times> string option \<times> string option \<Rightarrow> string \<Rightarrow>
   qa_pair list \<times> string option \<times> string option" where
  "parse_line pt st line =
     (case st of (qa_pairs, current_q, current_a) \<Rightarrow>
        if startswith line ''Q:''
        then (flush_pair pt qa_pairs current_q current_a, Some (strip (drop 2 line)), None)
        else if startswith line ''A:''
        then (qa_pairs, current_q, Some (strip (drop 2 line)))
        else (qa_pairs, current_q, current_a))"

definition response_lines :: "string \<Rightarrow> string list" where
  "response_lines response_text =
     map strip (filter (\<lambda>l. strip l \<noteq> []) (split_on CHR 0x0A response_text))"

definition parse_qa_response :: "string \<Rightarrow> prompt_type \<Rightarrow> qa_pair list" where
  "parse_qa_response response_text pt =
     (case foldl (parse_line pt) ([], None, None) (response_lines response_text) of
        (qa_pairs, current_q, current_a) \<Rightarrow> flush_pair pt qa_pairs current_q current_a)"


section \<open>Generation client\<close>

text \<open>
  One call of \<open>session.post\<close> ends in a response (status code and the \<open>response\<close> field
  of its body, when the body has one) or in an exception. The service is a function of
  the number of requests made before and of the prompt. The world records, in order, the
  requests (each with the keyword and prompt variant the source logs before it), the
  sleeps, and the paths of the files written.
\<close>

datatype post_result =
    Response nat "string option"
  | ReadTimeout
  | ConnectionError
  | OtherException

record request =
  req_keyword :: string
  req_prompt_type :: prompt_type
  req_prompt :: string

record world =
  posts :: "request list"
  sleeps :: "nat list"
  written :: "string list"

type_synonym service = "nat \<Rightarrow> string \<Rightarrow> post_result"

definition qa_text_of :: "post_result \<Rightarrow> string option" where
  \<comment> \<open>the text a successful attempt hands to the parser\<close>
  "qa_text_of r =
     (case r of
        Response status body \<Rightarrow>
          if status = 200 \<and> strip (get_or_empty body) \<noteq> [] then Some (strip (get_or_empty body))
          else None
      | _ \<Rightarrow> None)"

function retry_loop ::
  "service \<Rightarrow> config \<Rightarrow> string \<Rightarrow> string \<Rightarrow> prompt_type \<Rightarrow> nat \<Rightarrow> world \<Rightarrow>
   qa_pair list \<times> world" where
  "retry_loop svc cfg keyword prompt pt retry_count w =
     (if int retry_count < retries (ollama cfg)
      then
        (let r = svc (length (posts w)) prompt;
             w1 = w\<lparr>posts := posts w @
                    [\<lparr>req_keyword = keyword, req_prompt_type = pt, req_prompt = prompt\<rparr>]\<rparr>
         in case qa_text_of r of
              Some qa_text \<Rightarrow> (parse_qa_response qa_text pt, w1)
            | None \<Rightarrow>
                if int (retry_count + 1) < retries (ollama cfg)
                then retry_loop svc cfg keyword prompt pt (retry_count + 1)
                       (w1\<lparr>sleeps := sleeps w1 @ [retry_delay (ollama cfg) * (retry_count + 1 + 1)]\<rparr>)
                else retry_loop svc cfg keyword prompt pt (retry_count + 1) w1)
      else ([], w))"
  by pat_completeness auto
termination
  by (relation "measure (\<lambda>(svc, cfg, keyword, prompt, pt, retry_count, w).
        nat (retries (ollama cfg) - int retry_count))") auto

declare retry_loop.simps [simp del]

definition generate_qa_pairs ::
  "service \<Rightarrow> config \<Rightarrow> (string list \<Rightarrow> string list) \<Rightarrow> string \<Rightarrow> string \<Rightarrow>
   occurrence list \<Rightarrow> prompt_type \<Rightarrow> world \<Rightarrow> (error + qa_pair list) \<times> world" where
  "generate_qa_pairs svc cfg set_order policy_doc_name keyword occurrences pt w =
     (if occurrences = [] then (Inr [], w)
      else
        (case generate_prompt cfg set_order policy_doc_name keyword occurrences pt of
           Inl e \<Rightarrow> (Inl e, w)
         | Inr prompt \<Rightarrow>
             (case retry_loop svc cfg keyword prompt pt 0 w of (qa_pairs, w') \<Rightarrow> (Inr qa_pairs, w'))))"

section \<open>Output manager and checkpoint\<close>

text \<open>
  The name under which a document is stored is a string, except in one place: a findings
  dictionary that has a keyword \<open>original_filename\<close> hands the list of that keyword's
  findings on as the name.
\<close>

datatype filename = Name string | Not_A_Name "occurrence list"

record keyword_content =
  kc_qa_pairs :: "qa_pair list"
  kc_content :: "occurrence list"
  kc_original_filename :: filename

record text_stats =
  characters :: nat
  words :: nat

text \<open>Dictionaries that the source iterates over keep their insertion order.\<close>

record output_manager =
  qa_text :: "(string \<times> string list) list"
  qa_json :: "(string \<times> (string \<times> keyword_content) list) list"
  doc_stats :: "(string \<times> text_stats) list"

record qa_generator =
  processed_sections :: "string set"
  output_managers :: "prompt_type \<Rightarrow> output_manager"

type_synonym findings = "(string \<times> occurrence list) list"

definition path_join :: "string \<Rightarrow> string \<Rightarrow> string" where
  \<comment> \<open>\<open>Path(a) / b\<close>, for a relative \<open>b\<close>\<close>
  "path_join a b = a @ ''/'' @ b"

definition get_output_dir :: "config \<Rightarrow> prompt_type \<Rightarrow> error + string" where
  "get_output_dir cfg pt =
     (case subfolder_names (output_cfg cfg) ''qa'' of
        None \<Rightarrow> Inl KeyError
      | Some qa \<Rightarrow>
          (case subfolder_names (output_cfg cfg) (prompt_name pt @ ''_prompt'') of
             None \<Rightarrow> Inl KeyError
           | Some sub \<Rightarrow> Inr (path_join (path_join (base_folder (output_cfg cfg)) qa) sub)))"

definition count_text_stats :: "string \<Rightarrow> text_stats" where
  "count_text_stats t = \<lparr>characters = length t, words = length (split_ws t)\<rparr>"

definition eos :: string where
  "eos = [CHR 0x0A] @ ''<EOS>'' @ [CHR 0x0A]"

definition save_doc_outputs ::
  "config \<Rightarrow> prompt_type \<Rightarrow> string \<Rightarrow> string \<Rightarrow> output_manager \<Rightarrow> world \<Rightarrow>
   (error + unit) \<times> output_manager \<times> world" where
  \<comment> \<open>creating the directory and writing the files are taken to succeed\<close>
  "save_doc_outputs cfg pt doc_id policy_doc_name om w =
     (case map_of (qa_text om) doc_id of
        None \<Rightarrow> (Inr (), om, w)
      | Some texts \<Rightarrow>
          if texts = [] then (Inr (), om, w)
          else
            (case get_output_dir cfg pt of
               Inl e \<Rightarrow> (Inl e, om, w)
             | Inr output_dir \<Rightarrow>
                 (let stats = count_text_stats (join eos texts);
                      om1 = om\<lparr>doc_stats := AList.update doc_id stats (doc_stats om)\<rparr>;
                      w1 = w\<lparr>written := written w @ [path_join output_dir (doc_id @ ''_qa.txt'')]\<rparr>
                  in if map_of (qa_json om) policy_doc_name \<noteq> None
                     then (Inr (), om1,
                           w1\<lparr>written := written w1 @ [path_join output_dir (doc_id @ ''_qa.json'')]\<rparr>)
                     else (Inr (), om1, w1))))"

definition add_qa_pair :: "string \<Rightarrow> string \<Rightarrow> output_manager \<Rightarrow> output_manager" where
  "add_qa_pair doc_id t om =
     om\<lparr>qa_text := AList.update doc_id
           ((case map_of (qa_text om) doc_id of None \<Rightarrow> [] | Some ts \<Rightarrow> ts) @ [t]) (qa_text om)\<rparr>"

definition add_keyword_content ::
  "string \<Rightarrow> string \<Rightarrow> string \<Rightarrow> qa_pair list \<Rightarrow> occurrence list \<Rightarrow> filename \<Rightarrow>
   output_manager \<Rightarrow> output_manager" where
  "add_keyword_content doc_id policy_doc_name keyword pairs occs original_filename om =
     om\<lparr>qa_json := AList.update policy_doc_name
           (AList.update keyword
              \<lparr>kc_qa_pairs = pairs, kc_content = occs, kc_original_filename = original_filename\<rparr>
              (case map_of (qa_json om) policy_doc_name of None \<Rightarrow> [] | Some d \<Rightarrow> d))
           (qa_json om)\<rparr>"

definition qa_text_block :: "qa_pair \<Rightarrow> string" where
  "qa_text_block qa = ''Q: '' @ question qa @ [CHR 0x0A] @ ''A: '' @ answer qa"

definition get_policy_doc_name :: "string \<Rightarrow> error + string" where
  "get_policy_doc_name doc_id =
     (case split_on CHR ''_'' doc_id of
        a # b # rest \<Rightarrow>
          (case py_int b of
             Inl e \<Rightarrow> Inl e
           | Inr num \<Rightarrow> Inr (''[POLICY_DOC_'' @ fmt_03d num @ '']''))
      | _ \<Rightarrow> Inl IndexError)"

definition checkpoint_key :: "string \<Rightarrow> string \<Rightarrow> prompt_type \<Rightarrow> string" where
  "checkpoint_key doc_id keyword pt = doc_id @ ''|'' @ keyword @ ''|'' @ prompt_name pt"

definition record_qa_pairs ::
  "string \<Rightarrow> string \<Rightarrow> string \<Rightarrow> qa_pair list \<Rightarrow> occurrence list \<Rightarrow> filename \<Rightarrow>
   output_manager \<Rightarrow> output_manager" where
  \<comment> \<open>the two additions to the outputs that follow a non-empty result\<close>
  "record_qa_pairs doc_id policy_doc_name keyword pairs occs original_filename om =
     foldl (\<lambda>om qa. add_qa_pair doc_id (qa_text_block qa) om)
       (add_keyword_content doc_id policy_doc_name keyword pairs occs original_filename om) pairs"

definition process_keyword ::
  "service \<Rightarrow> config \<Rightarrow> (string list \<Rightarrow> string list) \<Rightarrow> string \<Rightarrow> string \<Rightarrow> findings \<Rightarrow>
   filename \<Rightarrow> prompt_type \<Rightarrow> string \<Rightarrow> bool \<times> qa_generator \<times> world \<Rightarrow>
   (error + bool) \<times> qa_generator \<times> world" where
  \<comment> \<open>one turn of the loop over the configured keywords; the flag is \<open>has_content\<close>\<close>
  "process_keyword svc cfg set_order doc_id policy_doc_name fnd original_filename pt keyword st =
     (case st of (has_content, gen, w) \<Rightarrow>
        (case map_of fnd keyword of
           None \<Rightarrow> (Inr has_content, gen, w)
         | Some occurrences \<Rightarrow>
             if checkpoint_key doc_id keyword pt \<in> processed_sections gen
             then (Inr has_content, gen, w)
             else if occurrences = [] then (Inr has_content, gen, w)
             else
               (case generate_qa_pairs svc cfg set_order policy_doc_name keyword occurrences pt w of
                  (Inl e, w') \<Rightarrow> (Inl e, gen, w')
                | (Inr pairs, w') \<Rightarrow>
                    if pairs = [] then (Inr has_content, gen, w')
                    else
                      (Inr True,
                       gen\<lparr>output_managers := (output_managers gen)
                              (pt := record_qa_pairs doc_id policy_doc_name keyword pairs occurrences
                                       original_filename (output_managers gen pt)),
                           processed_sections :=
                             insert (checkpoint_key doc_id keyword pt) (processed_sections gen)\<rparr>,
                       w'))))"

fun process_keywords ::
  "service \<Rightarrow> config \<Rightarrow> (string list \<Rightarrow> string list) \<Rightarrow> string \<Rightarrow> string \<Rightarrow> findings \<Rightarrow>
   filename \<Rightarrow> prompt_type \<Rightarrow> string list \<Rightarrow> bool \<times> qa_generator \<times> world \<Rightarrow>
   (error + bool) \<times> qa_generator \<times> world" where
  "process_keywords svc cfg set_order doc_id policy_doc_name fnd original_filename pt [] st =
     (case st of (has_content, gen, w) \<Rightarrow> (Inr has_content, gen, w))"
| "process_keywords svc cfg set_order doc_id policy_doc_name fnd original_filename pt (k # ks) st =
     (case process_keyword svc cfg set_order doc_id policy_doc_name fnd original_filename pt k st of
        (Inl e, gen, w) \<Rightarrow> (Inl e, gen, w)
      | (Inr has_content, gen, w) \<Rightarrow>
          process_keywords svc cfg set_order doc_id policy_doc_name fnd original_filename pt ks
            (has_content, gen, w))"

definition process_document_keywords ::
  "service \<Rightarrow> config \<Rightarrow> (string list \<Rightarrow> string list) \<Rightarrow> string \<Rightarrow> findings \<Rightarrow> filename \<Rightarrow>
   prompt_type \<Rightarrow> qa_generator \<Rightarrow> world \<Rightarrow> (error + unit) \<times> qa_generator \<times> world" where
  "process_document_keywords svc cfg set_order doc_id fnd original_filename pt gen w =
     (case get_policy_doc_name doc_id of
        Inl e \<Rightarrow> (Inl e, gen, w)
      | Inr policy_doc_name \<Rightarrow>
          (case process_keywords svc cfg set_order doc_id policy_doc_name fnd original_filename pt
                  (keywords_cfg cfg) (False, gen, w) of
             (Inl e, gen', w') \<Rightarrow> (Inl e, gen', w')
           | (Inr has_content, gen', w') \<Rightarrow>
               if has_content
               then
                 (case save_doc_outputs cfg pt doc_id policy_doc_name (output_managers gen' pt) w' of
                    (r, om, w'') \<Rightarrow>
                      (r, gen'\<lparr>output_managers := (output_managers gen')(pt := om)\<rparr>, w''))
               else (Inr (), gen', w')))"

definition recorded :: "qa_generator \<Rightarrow> prompt_type \<Rightarrow> string \<Rightarrow> string \<Rightarrow> bool" where
  \<comment> \<open>the outputs of the variant hold a non-empty list of pairs for the keyword\<close>
  "recorded gen pt policy_doc_name keyword =
     (case map_of (qa_json (output_managers gen pt)) policy_doc_name of
        None \<Rightarrow> False
      | Some d \<Rightarrow> (case map_of d keyword of None \<Rightarrow> False | Some entry \<Rightarrow> kc_qa_pairs entry \<noteq> []))"

definition requests_of :: "string \<Rightarrow> prompt_type \<Rightarrow> request list \<Rightarrow> bool" where
  "requests_of keyword pt rs = (\<forall>rq \<in> set rs. req_keyword rq = keyword \<and> req_prompt_type rq = pt)"

definition loop_contract ::
  "string \<Rightarrow> string \<Rightarrow> prompt_type \<Rightarrow> qa_generator \<Rightarrow> world \<Rightarrow> qa_generator \<Rightarrow> world \<Rightarrow> bool" where
  "loop_contract doc_id policy pt gen w gen' w' =
     ((\<exists>new. posts w' = posts w @ new \<and>
         (\<forall>rq \<in> set new. req_prompt_type rq = pt \<and>
            checkpoint_key doc_id (req_keyword rq) pt \<notin> processed_sections gen)) \<and>
      processed_sections gen \<subseteq> processed_sections gen' \<and>
      (\<forall>k \<in> processed_sections gen' - processed_sections gen.
         \<exists>keyword. k = checkpoint_key doc_id keyword pt \<and> recorded gen' pt policy keyword) \<and>
      (\<forall>k. recorded gen pt policy k \<longrightarrow> recorded gen' pt policy k))"

section \<open>Regular expressions\<close>

text \<open>
  The masking rules are patterns of Python's \<open>re\<close> module. The model has the constructs
  those patterns use: the word boundary, a character class repeated greedily between two
  bounds, sequence, and ordered alternation (an optional group is the alternation of the
  group with the empty pattern). The matcher backtracks in the order of the \<open>re\<close>
  engine: a repetition gives characters back one at a time, an alternation tries its
  branches from the left.
\<close>

definition is_word :: "char \<Rightarrow> bool" where
  \<comment> \<open>\<open>\w\<close>: the alphanumeric characters and the underscore\<close>
  "is_word c = (in_range c 48 57 \<or> in_range c 65 90 \<or> in_range c 95 95 \<or> in_range c 97 122 \<or>
     in_range c 170 170 \<or> in_range c 178 179 \<or> in_range c 181 181 \<or> in_range c 185 186 \<or>
     in_range c 188 190 \<or> in_range c 192 214 \<or> in_range c 216 246 \<or> in_range c 248 255)"

definition upper_char :: "char \<Rightarrow> char" where
  "upper_char c = (if in_range c 97 122 \<or> in_range c 224 246 \<or> in_range c 248 254
                   then char_of (of_char c - (32 :: nat)) else c)"

datatype cclass =
    Digit
  | Word
  | Space
  | Chr char
  | Range char char
  | AnyOf "cclass list"
  | NoCase cclass

fun cmatch :: "cclass \<Rightarrow> char \<Rightarrow> bool" where
  "cmatch Digit c = is_ascii_digit c"
| "cmatch Word c = is_word c"
| "cmatch Space c = is_space c"
| "cmatch (Chr x) c = (c = x)"
| "cmatch (Range lo hi) c = (lo \<le> c \<and> c \<le> hi)"
| "cmatch (AnyOf cs) c = (\<exists>cls \<in> set cs. cmatch cls c)"
| "cmatch (NoCase cls) c = (cmatch cls (lower_char c) \<or> cmatch cls (upper_char c))"

datatype regex =
    Eps
  | Boundary
  | Rep cclass nat "nat option"
  | Seq regex regex
  | Alt regex regex

definition word_before :: "char option \<Rightarrow> bool" where
  "word_before prev = (case prev of None \<Rightarrow> False | Some c \<Rightarrow> is_word c)"

definition word_at :: "string \<Rightarrow> bool" where
  "word_at s = (case s of [] \<Rightarrow> False | c # _ \<Rightarrow> is_word c)"

definition at_boundary :: "char option \<Rightarrow> string \<Rightarrow> bool" where
  \<comment> \<open>\<open>\b\<close>, between the character before the position and the text from it on\<close>
  "at_boundary prev s = (word_before prev \<noteq> word_at s)"

fun try_counts ::
  "(char option \<Rightarrow> string \<Rightarrow> 'a option) \<Rightarrow> char option \<Rightarrow> string \<Rightarrow> nat \<Rightarrow> nat \<Rightarrow> 'a option" where
  \<comment> \<open>continue after \<open>n\<close> characters, then after one fewer, down to \<open>lo\<close>\<close>
  "try_counts k prev s lo 0 = (if lo = 0 then k prev s else None)"
| "try_counts k prev s lo (Suc n) =
     (if Suc n < lo then None
      else (case k (Some (s ! n)) (drop (Suc n) s) of
              Some x \<Rightarrow> Some x
            | None \<Rightarrow> try_counts k prev s lo n))"

primrec rmatch ::
  "regex \<Rightarrow> (char option \<Rightarrow> string \<Rightarrow> 'a option) \<Rightarrow> char option \<Rightarrow> string \<Rightarrow> 'a option" where
  \<comment> \<open>match at the start of \<open>s\<close>, \<open>prev\<close> being the character before it, and hand what
      is left to the continuation \<open>k\<close>\<close>
  "rmatch Eps k prev s = k prev s"
| "rmatch Boundary k prev s = (if at_boundary prev s then k prev s else None)"
| "rmatch (Rep cls lo hi) k prev s =
     try_counts k prev s lo
       (let n = length (takeWhile (cmatch cls) s) in case hi of None \<Rightarrow> n | Some h \<Rightarrow> min n h)"
| "rmatch (Seq a b) k prev s = rmatch a (rmatch b k) prev s"
| "rmatch (Alt a b) k prev s =
     (case rmatch a k prev s of Some x \<Rightarrow> Some x | None \<Rightarrow> rmatch b k prev s)"

definition find_match :: "regex \<Rightarrow> char option \<Rightarrow> string \<Rightarrow> string option" where
  \<comment> \<open>the text left after the match the engine finds at the start of \<open>s\<close>\<close>
  "find_match r prev s = rmatch r (\<lambda>p rest. Some rest) prev s"

function re_sub :: "regex \<Rightarrow> string \<Rightarrow> char option \<Rightarrow> string \<Rightarrow> string" where
  \<comment> \<open>\<open>re.sub(pattern, repl, text)\<close> from a position on: the leftmost match is replaced
      and the search goes on behind it. None of the masking patterns matches the empty
      string; such a match would be passed over here.\<close>
  "re_sub r repl prev s =
     (case s of
        [] \<Rightarrow> []
      | c # cs \<Rightarrow>
          (case find_match r prev s of
             None \<Rightarrow> c # re_sub r repl (Some c) cs
           | Some rest \<Rightarrow>
               if length rest < length s
               then repl @ re_sub r repl (Some (s ! (length s - length rest - 1))) rest
               else c # re_sub r repl (Some c) cs))"
  by pat_completeness auto
termination
  by (relation "measure (\<lambda>(r, repl, prev, s). length s)") auto

declare re_sub.simps [simp del]

definition chr :: "char \<Rightarrow> regex" where
  "chr c = Rep (Chr c) 1 (Some 1)"

definition lit :: "string \<Rightarrow> regex" where
  "lit s = foldr (\<lambda>c r. Seq (chr c) r) s Eps"

definition seq :: "regex list \<Rightarrow> regex" where
  "seq rs = foldr Seq rs Eps"

fun alts :: "regex list \<Rightarrow> regex" where
  "alts [] = Eps"
| "alts [r] = r"
| "alts (r # rs) = Alt r (alts rs)"

definition opt :: "regex \<Rightarrow> regex" where
  \<comment> \<open>\<open>(...)?\<close>\<close>
  "opt r = Alt r Eps"

definition plus :: "cclass \<Rightarrow> regex" where
  "plus cls = Rep cls 1 None"

definition star :: "cclass \<Rightarrow> regex" where
  "star cls = Rep cls 0 None"

definition maybe :: "cclass \<Rightarrow> regex" where
  \<comment> \<open>one character of the class, or none\<close>
  "maybe cls = Rep cls 0 (Some 1)"

definition digits :: "nat \<Rightarrow> regex" where
  \<comment> \<open>\<open>\d{n}\<close>\<close>
  "digits n = Rep Digit n (Some n)"

definition word_bounded :: "regex list \<Rightarrow> regex" where
  \<comment> \<open>\<open>\b ... \b\<close>\<close>
  "word_bounded rs = Seq Boundary (Seq (seq rs) Boundary)"

primrec ignorecase :: "regex \<Rightarrow> regex" where
  \<comment> \<open>\<open>flags=re.IGNORECASE\<close>\<close>
  "ignorecase Eps = Eps"
| "ignorecase Boundary = Boundary"
| "ignorecase (Rep cls lo hi) = Rep (NoCase cls) lo hi"
| "ignorecase (Seq a b) = Seq (ignorecase a) (ignorecase b)"
| "ignorecase (Alt a b) = Alt (ignorecase a) (ignorecase b)"

section \<open>Masker\<close>

definition email_pattern :: regex where
  "email_pattern = word_bounded
     [plus (AnyOf [Word, Chr CHR ''.'', Chr CHR ''-'']), chr CHR ''@'',
      plus (AnyOf [Word, Chr CHR ''.'', Chr CHR ''-'']), chr CHR ''.'', plus Word]"

definition phone_pattern :: regex where
  "phone_pattern = word_bounded
     [opt (seq [chr CHR ''+'', Rep Digit 1 (Some 2), maybe Space]),
      maybe (Chr CHR ''(''), digits 3, maybe (Chr CHR '')''),
      maybe (AnyOf [Space, Chr CHR ''.'', Chr CHR ''-'']), digits 3,
      maybe (AnyOf [Space, Chr CHR ''.'', Chr CHR ''-'']), digits 4]"

definition ssn_pattern :: regex where
  "ssn_pattern = word_bounded [digits 3, chr CHR ''-'', digits 2, chr CHR ''-'', digits 4]"

definition street_words :: "string list" where
  "street_words =
     [''Street'', ''St'', ''Avenue'', ''Ave'', ''Road'', ''Rd'', ''Boulevard'', ''Blvd'', ''Lane'',
      ''Ln'', ''Drive'', ''Dr'', ''Court'', ''Ct'', ''Circle'', ''Cir'', ''Way'', ''Parkway'', ''Pkwy'',
      ''Highway'', ''Hwy'', ''Suite'', ''Ste'', ''Unit'', ''#'']"

definition address_pattern :: regex where
  "address_pattern = ignorecase (word_bounded
     [plus Digit, plus Space,
      seq [plus (AnyOf [Range CHR ''A'' CHR ''Z'', Range CHR ''a'' CHR ''z'', Range CHR ''0'' CHR ''9'',
                        Space, Chr CHR '','', Chr CHR ''.'', Chr CHR ''-'']), plus Space],
      alts (map lit street_words),
      maybe (Chr CHR ''.''), star Space, maybe (Chr CHR '',''), star Space,
      seq [plus (AnyOf [Range CHR ''A'' CHR ''Z'', Range CHR ''a'' CHR ''z'', Space]), chr CHR '','',
           star Space, Rep (Range CHR ''A'' CHR ''Z'') 2 (Some 2), star Space, digits 5,
           opt (seq [chr CHR ''-'', digits 4])]])"

definition zip_pattern :: regex where
  "zip_pattern = word_bounded [digits 5, opt (seq [chr CHR ''-'', digits 4])]"

definition policy_pattern :: regex where
  "policy_pattern = word_bounded [Rep Digit 5 (Some 10)]"

definition month_names :: "string list" where
  "month_names = [''Jan'', ''Feb'', ''Mar'', ''Apr'', ''May'', ''Jun'', ''Jul'', ''Aug'', ''Sep'',
                  ''Oct'', ''Nov'', ''Dec'']"

definition month_date_pattern :: regex where
  "month_date_pattern = word_bounded
     [alts (map lit month_names), star (Range CHR ''a'' CHR ''z''), chr CHR '' '',
      Rep Digit 1 (Some 2), maybe (Chr CHR '',''), chr CHR '' '', digits 4]"

definition numeric_date_pattern :: regex where
  "numeric_date_pattern = word_bounded
     [Rep Digit 1 (Some 2), chr CHR ''/'', Rep Digit 1 (Some 2), chr CHR ''/'', Rep Digit 2 (Some 4)]"

definition time_period_pattern :: regex where
  "time_period_pattern = word_bounded
     [plus Digit, star Space, alts (map lit [''day'', ''week'', ''month'', ''year'']),
      maybe (Chr CHR ''s'')]"

definition company_pattern :: "string \<Rightarrow> regex" where
  "company_pattern company = ignorecase (word_bounded [lit company])"

definition company_names :: "string list" where
  "company_names = [''Unum'', ''Hartford'', ''Lincoln'']"

definition mask_sensitive_info :: "string \<Rightarrow> string" where
  "mask_sensitive_info t0 =
     (let t1 = re_sub email_pattern ''[EMAIL]'' None t0;
          t2 = re_sub phone_pattern ''[PHONE]'' None t1;
          t3 = re_sub ssn_pattern ''[SSN]'' None t2;
          t4 = re_sub address_pattern ''[ADDRESS]'' None t3;
          t5 = re_sub zip_pattern ''[ZIP]'' None t4;
          t6 = re_sub policy_pattern ''[POLICY_NUMBER]'' None t5;
          t7 = re_sub month_date_pattern ''[DATE]'' None t6;
          t8 = re_sub numeric_date_pattern ''[DATE]'' None t7;
          t9 = re_sub time_period_pattern ''[TIME_PERIOD]'' None t8
      in foldl (\<lambda>t company. re_sub (company_pattern company) ''[COMPANY_NAME]'' None t)
           t9 company_names)"

section \<open>What a pattern matches\<close>

text \<open>
  The matcher above is the engine. The relation below says which prefixes of a text a
  pattern matches at all; the tests that follow it are sufficient syntactic conditions on
  a pattern, used to reason about the rules of the masker.
\<close>

fun prev_after :: "char option \<Rightarrow> string \<Rightarrow> nat \<Rightarrow> char option" where
  \<comment> \<open>the character before the position reached after \<open>n\<close> characters of \<open>s\<close>\<close>
  "prev_after prev s 0 = prev"
| "prev_after prev s (Suc n) = Some (s ! n)"

primrec matches :: "regex \<Rightarrow> char option \<Rightarrow> string \<Rightarrow> nat \<Rightarrow> bool" where
  \<comment> \<open>the pattern matches the first \<open>n\<close> characters of \<open>s\<close>\<close>
  "matches Eps prev s n = (n = 0)"
| "matches Boundary prev s n = (n = 0 \<and> at_boundary prev s)"
| "matches (Rep cls lo hi) prev s n =
     (n \<le> length s \<and> lo \<le> n \<and> (case hi of None \<Rightarrow> True | Some h \<Rightarrow> n \<le> h) \<and>
      (\<forall>c \<in> set (take n s). cmatch cls c))"
| "matches (Seq a b) prev s n =
     (\<exists>m \<le> n. matches a prev s m \<and> matches b (prev_after prev s m) (drop m s) (n - m))"
| "matches (Alt a b) prev s n = (matches a prev s n \<or> matches b prev s n)"

fun sub_word :: "cclass \<Rightarrow> bool" where
  \<comment> \<open>a sufficient test that the class holds word characters only\<close>
  "sub_word Digit = True"
| "sub_word Word = True"
| "sub_word Space = False"
| "sub_word (Chr c) = is_word c"
| "sub_word (Range lo hi) = False"
| "sub_word (AnyOf cs) = (\<forall>cls \<in> set cs. sub_word cls)"
| "sub_word (NoCase cls) = sub_word cls"

primrec avoids :: "char \<Rightarrow> regex \<Rightarrow> bool" where
  \<comment> \<open>no class of the pattern accepts the character\<close>
  "avoids x Eps = True"
| "avoids x Boundary = True"
| "avoids x (Rep cls lo hi) = (\<not> cmatch cls x)"
| "avoids x (Seq a b) = (avoids x a \<and> avoids x b)"
| "avoids x (Alt a b) = (avoids x a \<and> avoids x b)"

primrec starts_boundary :: "regex \<Rightarrow> bool" where
  "starts_boundary Eps = False"
| "starts_boundary Boundary = True"
| "starts_boundary (Rep cls lo hi) = False"
| "starts_boundary (Seq a b) = starts_boundary a"
| "starts_boundary (Alt a b) = (starts_boundary a \<and> starts_boundary b)"

primrec nonempty :: "regex \<Rightarrow> bool" where
  \<comment> \<open>a sufficient test that the pattern matches no empty text\<close>
  "nonempty Eps = False"
| "nonempty Boundary = False"
| "nonempty (Rep cls lo hi) = (1 \<le> lo)"
| "nonempty (Seq a b) = (nonempty a \<or> nonempty b)"
| "nonempty (Alt a b) = (nonempty a \<and> nonempty b)"

primrec word_tail :: "regex \<Rightarrow> bool" where
  \<comment> \<open>a sufficient test that a match is empty or ends in a word character\<close>
  "word_tail Eps = True"
| "word_tail Boundary = True"
| "word_tail (Rep cls lo hi) = sub_word cls"
| "word_tail (Seq a b) = (word_tail b \<and> (nonempty b \<or> word_tail a))"
| "word_tail (Alt a b) = (word_tail a \<and> word_tail b)"

primrec ends_boundary :: "regex \<Rightarrow> bool" where
  \<comment> \<open>a sufficient test that a match ends in a word character followed by a word boundary\<close>
  "ends_boundary Eps = False"
| "ends_boundary Boundary = False"
| "ends_boundary (Rep cls lo hi) = False"
| "ends_boundary (Seq a b) = (ends_boundary b \<or> (b = Boundary \<and> word_tail a \<and> nonempty a))"
| "ends_boundary (Alt a b) = (ends_boundary a \<and> ends_boundary b)"

definition well_bounded :: "regex \<Rightarrow> bool" where
  \<comment> \<open>the shape all masking patterns have: between word boundaries, ending in a word
      character, and with no class that accepts a square bracket\<close>
  "well_bounded r =
     (starts_boundary r \<and> ends_boundary r \<and> avoids CHR ''['' r \<and> avoids CHR '']'' r)"

definition prev_of :: "char option \<Rightarrow> string \<Rightarrow> char option" where
  \<comment> \<open>the character before the position that follows the text \<open>u\<close>\<close>
  "prev_of p u = (if u = [] then p else Some (last u))"

definition matches_in :: "regex \<Rightarrow> char option \<Rightarrow> string \<Rightarrow> bool" where
  \<comment> \<open>the pattern has a match that is not empty somewhere in the text\<close>
  "matches_in r p t = (\<exists>u v n. t = u @ v \<and> 0 < n \<and> matches r (prev_of p u) v n)"

fun no_find :: "regex \<Rightarrow> char option \<Rightarrow> string \<Rightarrow> bool" where
  \<comment> \<open>the engine finds no match at any position of the text\<close>
  "no_find r p [] = True"
| "no_find r p (c # cs) = (find_match r p (c # cs) = None \<and> no_find r (Some c) cs)"

definition same_side :: "char option \<Rightarrow> char option \<Rightarrow> string \<Rightarrow> bool" where
  \<comment> \<open>how the character before a position of the output relates to the one before the
      same position of the input: it is the same, or it is the closing bracket of a token
      that stands for a match ending there\<close>
  "same_side p p' s = (p' = p \<or> (p' = Some CHR '']'' \<and> word_before p \<and> \<not> word_at s))"

definition no_new_match :: "regex \<Rightarrow> regex \<Rightarrow> char option \<Rightarrow> string \<Rightarrow> bool" where
  \<comment> \<open>wherever the applied pattern \<open>rj\<close> has no match in the text, \<open>ri\<close> has none either\<close>
  "no_new_match ri rj p s =
     (\<forall>u v. s = u @ v \<longrightarrow> (\<forall>n. 0 < n \<longrightarrow> \<not> matches rj (prev_of p u) v n) \<longrightarrow>
        (\<forall>n. 0 < n \<longrightarrow> \<not> matches ri (prev_of p u) v n))"

definition token :: "string \<Rightarrow> string" where
  "token name = CHR ''['' # name @ '']''"

definition apply_rules :: "(regex \<times> string) list \<Rightarrow> string \<Rightarrow> string" where
  \<comment> \<open>the rules in order, each a pattern and the name of its token\<close>
  "apply_rules rules t = foldl (\<lambda>t rule. re_sub (fst rule) (token (snd rule)) None t) t rules"

definition rules_closed :: "(regex \<times> string) list \<Rightarrow> bool" where
  \<comment> \<open>every pattern is well bounded and finds nothing inside any token\<close>
  "rules_closed rules =
     (\<forall>rule \<in> set rules. well_bounded (fst rule) \<and>
        (\<forall>other \<in> set rules. \<not> matches_in (fst rule) (Some CHR ''['') (snd other @ '']'')))"

definition mask_rules :: "(regex \<times> string) list" where
  "mask_rules =
     [(email_pattern, ''EMAIL''), (phone_pattern, ''PHONE''), (ssn_pattern, ''SSN''),
      (address_pattern, ''ADDRESS''), (zip_pattern, ''ZIP''), (policy_pattern, ''POLICY_NUMBER''),
      (month_date_pattern, ''DATE''), (numeric_date_pattern, ''DATE''),
      (time_period_pattern, ''TIME_PERIOD'')] @
     map (\<lambda>company. (company_pattern company, ''COMPANY_NAME'')) company_names"

definition digit_or_at :: "char \<Rightarrow> bool" where
  "digit_or_at c = (is_ascii_digit c \<or> c = CHR ''@'')"

fun only_digit_or_at :: "cclass \<Rightarrow> bool" where
  \<comment> \<open>a sufficient test that the class holds only digits and the at sign\<close>
  "only_digit_or_at Digit = True"
| "only_digit_or_at (Chr c) = digit_or_at c"
| "only_digit_or_at (NoCase cls) = only_digit_or_at cls"
| "only_digit_or_at cls = False"

primrec needs_digit_or_at :: "regex \<Rightarrow> bool" where
  \<comment> \<open>a sufficient test that every match holds a digit or an at sign\<close>
  "needs_digit_or_at Eps = False"
| "needs_digit_or_at Boundary = False"
| "needs_digit_or_at (Rep cls lo hi) = (1 \<le> lo \<and> only_digit_or_at cls)"
| "needs_digit_or_at (Seq a b) = (needs_digit_or_at a \<or> needs_digit_or_at b)"
| "needs_digit_or_at (Alt a b) = (needs_digit_or_at a \<and> needs_digit_or_at b)"

definition token_names :: "string list" where
  "token_names = [''EMAIL'', ''PHONE'', ''SSN'', ''ADDRESS'', ''ZIP'', ''POLICY_NUMBER'', ''DATE'',
                  ''TIME_PERIOD'', ''COMPANY_NAME'']"

definition rule_ok :: "regex \<Rightarrow> bool" where
  \<comment> \<open>the pattern is well bounded and matches nothing inside a token\<close>
  "rule_ok r =
     (well_bounded r \<and>
      (\<forall>name \<in> set token_names. \<not> matches_in r (Some CHR ''['') (name @ '']'')))"

section \<open>Blocks of a page\<close>

text \<open>
  The parser hands over each page as a list of blocks. A block may have no \<open>lines\<close>
  key and a line may have no \<open>spans\<close> key; a span always has its text, and may have a
  size and style flags.
\<close>

record span =
  span_text :: string
  span_size :: "rat option"
  flags :: "int option"

record line =
  spans :: "span list option"

record block =
  lines :: "line list option"

definition empty_span :: span where
  \<comment> \<open>the dictionary \<open>{}\<close> where a span is expected: only size and flags are read from it\<close>
  "empty_span = \<lparr>span_text = [], span_size = None, flags = None\<rparr>"

definition empty_line :: line where
  \<comment> \<open>the dictionary \<open>{}\<close> where a line is expected\<close>
  "empty_line = \<lparr>spans = None\<rparr>"

definition is_header :: "string \<Rightarrow> span list \<Rightarrow> error + bool" where
  "is_header t sp =
     (if t = [] then Inr False
      else if isupper t \<or> endswith (rstrip t) '':'' then Inr True
      else
        (case sp of
           [] \<Rightarrow> Inl IndexError
         | s # _ \<Rightarrow>
             Inr ((case span_size s of None \<Rightarrow> 0 | Some v \<Rightarrow> v) > 12 \<or>
                  (case flags s of None \<Rightarrow> 0 | Some f \<Rightarrow> f) AND 16 \<noteq> 0)))"

definition line_text :: "line \<Rightarrow> string option" where
  \<comment> \<open>the text of a line, or nothing when the loop skips the line\<close>
  "line_text l =
     (case spans l of
        None \<Rightarrow> None
      | Some ss \<Rightarrow>
          if ss = [] then None
          else (let t = strip (join '' '' (map span_text ss)) in if t = [] then None else Some t))"

definition sentence_step :: "string list \<times> string list \<Rightarrow> line \<Rightarrow> string list \<times> string list" where
  \<comment> \<open>the text is stripped and not empty where its last character is read\<close>
  "sentence_step st l =
     (case st of (sentences, current_sentence) \<Rightarrow>
        (case line_text l of
           None \<Rightarrow> (sentences, current_sentence)
         | Some t \<Rightarrow>
             if last (rstrip t) \<in> set ''.!?''
             then (sentences @ [join '' '' (current_sentence @ [t])], [])
             else (sentences, current_sentence @ [t])))"

definition get_block_text :: "block \<Rightarrow> string" where
  "get_block_text b =
     (case lines b of
        None \<Rightarrow> []
      | Some ls \<Rightarrow>
          (case foldl sentence_step ([], []) ls of
             (sentences, current_sentence) \<Rightarrow>
               join '' '' (if current_sentence \<noteq> [] then sentences @ [join '' '' current_sentence]
                          else sentences)))"

definition header_spans :: "block \<Rightarrow> error + span list" where
  \<comment> \<open>\<open>block.get("lines", [{}])[0].get("spans", [{}])\<close>\<close>
  "header_spans b =
     (case (case lines b of None \<Rightarrow> [empty_line] | Some ls \<Rightarrow> ls) of
        [] \<Rightarrow> Inl IndexError
      | l # _ \<Rightarrow> Inr (case spans l of None \<Rightarrow> [empty_span] | Some ss \<Rightarrow> ss))"

definition block_is_header :: "block \<Rightarrow> error + bool" where
  \<comment> \<open>the heading test of the forward loop, on a block whose text is not empty\<close>
  "block_is_header b =
     (case header_spans b of
        Inl e \<Rightarrow> Inl e
      | Inr sp \<Rightarrow> is_header (hd (split_on CHR 0x0A (get_block_text b))) sp)"

fun forward_context :: "block list \<Rightarrow> nat \<Rightarrow> nat list \<Rightarrow> string list \<Rightarrow> error + string list" where
  \<comment> \<open>the loop \<open>for i in range(1, 4)\<close>, over the offsets still to visit\<close>
  "forward_context blocks idx [] content_parts = Inr content_parts"
| "forward_context blocks idx (i # rest) content_parts =
     (if idx + i < length blocks
      then
        (let next_block_text = get_block_text (blocks ! (idx + i))
         in if next_block_text \<noteq> []
            then
              (case block_is_header (blocks ! (idx + i)) of
                 Inl e \<Rightarrow> Inl e
               | Inr True \<Rightarrow> Inr (content_parts @ [next_block_text])
               | Inr False \<Rightarrow> forward_context blocks idx rest (content_parts @ [next_block_text]))
            else forward_context blocks idx rest content_parts)
      else forward_context blocks idx rest content_parts)"

definition find_keyword_context :: "block list \<Rightarrow> string \<Rightarrow> nat \<Rightarrow> error + string option" where
  "find_keyword_context blocks keyword current_block_idx =
     (if current_block_idx \<ge> length blocks then Inl IndexError
      else
        (let current_text = get_block_text (blocks ! current_block_idx)
         in if \<not> contains current_text keyword then Inr None
            else
              (let previous_text =
                     (if current_block_idx > 0 then get_block_text (blocks ! (current_block_idx - 1))
                      else []);
                   content_parts = (if previous_text \<noteq> [] then [previous_text] else []) @ [current_text]
               in case forward_context blocks current_block_idx [1, 2, 3] content_parts of
                    Inl e \<Rightarrow> Inl e
                  | Inr parts \<Rightarrow> Inr (Some (join '' '' parts)))))"

section \<open>Examples\<close>

definition example_config :: config where
  "example_config =
     \<lparr>storage = \<lparr>provider = ''local'', project_id = None, bucket_name = None, credentials_path = None\<rparr>,
      output_cfg = \<lparr>base_folder = ''processed_outputs'',
        subfolder_names = [''masked'' \<mapsto> ''masked_content'', ''qa'' \<mapsto> ''qa_outputs'',
          ''default_prompt'' \<mapsto> ''default'', ''alternative_prompt'' \<mapsto> ''alternative'']\<rparr>,
      ollama = \<lparr>model_name = ''llama3'', base_url = ''http://localhost:11434'', retries = 3, retry_delay = 2\<rparr>,
      keywords_cfg = [''Hartford''],
      prompts = [''default'' \<mapsto> [Lit ''Ask about '', Field ''keyword'', Lit '' on pages '', Field ''formatted_pages'', Lit '': '', Field ''content''],
                 ''alternative'' \<mapsto> [Lit ''Summarise '', Field ''content'']]\<rparr>"

definition example_occurrence :: occurrence where
  "example_occurrence =
     \<lparr>source_file = ''doc_001'',
      location = Some \<lparr>page_number = Some ''one'', line_number = Some ''two''\<rparr>,
      content = Some \<lparr>selected_text = Some ''[COMPANY_NAME] pays'', full_extracted_part = Some ''[COMPANY_NAME] pays claims.''\<rparr>,
      extraction_timestamp = ''2024-01-05T10:00:00''\<rparr>"

definition flaky_text :: string where
  "flaky_text = ''Q: Who pays as per the policy?'' @ [CHR 0x0A] @ ''A: They do. (page one)''"

definition flaky_service :: service where
  "flaky_service n prompt = (if n < 2 then ReadTimeout else Response 200 (Some flaky_text))"



definition empty_manager :: output_manager where
  "empty_manager = \<lparr>qa_text = [], qa_json = [], doc_stats = []\<rparr>"

definition new_generator :: qa_generator where
  \<comment> \<open>the state \<open>QAGenerator.__init__\<close> sets up\<close>
  "new_generator = \<lparr>processed_sections = {}, output_managers = (\<lambda>pt. empty_manager)\<rparr>"

definition empty_world :: world where
  "empty_world = \<lparr>posts = [], sleeps = [], written = []\<rparr>"

definition steady_service :: service where
  "steady_service n prompt = Response 200 (Some flaky_text)"

definition example_findings :: findings where
  "example_findings = [(''Hartford'', [example_occurrence])]"

definition first_run :: "(error + unit) \<times> qa_generator \<times> world" where
  "first_run = process_document_keywords steady_service example_config (\<lambda>xs. xs) ''doc_001''
     example_findings (Name ''policy.pdf'') Default new_generator empty_world"

definition second_run :: "(error + unit) \<times> qa_generator \<times> world" where
  "second_run = process_document_keywords steady_service example_config (\<lambda>xs. xs) ''doc_001''
     example_findings (Name ''policy.pdf'') Default (fst (snd first_run)) (snd (snd first_run))"

definition text_line :: "string \<Rightarrow> line" where
  "text_line t = \<lparr>spans = Some [\<lparr>span_text = t, span_size = Some 10, flags = Some 0\<rparr>]\<rparr>"

definition text_block :: "string list \<Rightarrow> block" where
  "text_block ts = \<lparr>lines = Some (map text_line ts)\<rparr>"

definition example_blocks :: "block list" where
  "example_blocks =
     [text_block [''Policy overview.''],
      text_block [''Hartford pays the'', ''claims of members.''],
      text_block [''Claims are paid monthly.''],
      text_block [''EXCLUSIONS''],
      text_block [''War is excluded.'']]"

definition spanless_blocks :: "block list" where
  \<comment> \<open>the first line of the second block has an empty list of spans\<close>
  "spanless_blocks =
     [text_block [''Hartford pays.''],
      \<lparr>lines = Some [\<lparr>spans = Some []\<rparr>, text_line ''claims are paid monthly'']\<rparr>]"

section \<open>Properties of the retry loop\<close>

lemma retry_loop_success:
  assumes "int rc < retries (ollama cfg)"
    and "qa_text_of (svc n prompt) = Some t" and "n = length (posts w)"
    and "w' = w\<lparr>posts := posts w @
                 [\<lparr>req_keyword = keyword, req_prompt_type = pt, req_prompt = prompt\<rparr>]\<rparr>"
  shows "retry_loop svc cfg keyword prompt pt rc w = (parse_qa_response t pt, w')"
  using assms by (subst retry_loop.simps) (simp add: Let_def)

lemma retry_loop_fail:
  assumes "int rc' < retries (ollama cfg)" and "rc' = rc + 1"
    and "qa_text_of (svc n prompt) = None" and "n = length (posts w)"
    and "w' = w\<lparr>posts := posts w @
                 [\<lparr>req_keyword = keyword, req_prompt_type = pt, req_prompt = prompt\<rparr>],
               sleeps := sleeps w @ [retry_delay (ollama cfg) * (rc' + 1)]\<rparr>"
  shows "retry_loop svc cfg keyword prompt pt rc w = retry_loop svc cfg keyword prompt pt rc' w'"
  using assms by (subst retry_loop.simps) (simp add: Let_def)

lemma retry_fail_fail_succeed:
  assumes r: "retries (ollama cfg) = 3"
    and f1: "qa_text_of (svc (length (posts w)) prompt) = None"
    and f2: "qa_text_of (svc (length (posts w) + 1) prompt) = None"
    and ok: "qa_text_of (svc (length (posts w) + 2) prompt) = Some t"
    and rq: "rq = \<lparr>req_keyword = keyword, req_prompt_type = pt, req_prompt = prompt\<rparr>"
  shows "retry_loop svc cfg keyword prompt pt 0 w =
           (parse_qa_response t pt,
            w\<lparr>posts := posts w @ [rq, rq, rq],
              sleeps := sleeps w @ [retry_delay (ollama cfg) * 2, retry_delay (ollama cfg) * 3]\<rparr>)"
proof -
  let ?d = "retry_delay (ollama cfg)"
  let ?w1 = "w\<lparr>posts := posts w @ [rq], sleeps := sleeps w @ [?d * 2]\<rparr>"
  let ?w2 = "w\<lparr>posts := posts w @ [rq, rq], sleeps := sleeps w @ [?d * 2, ?d * 3]\<rparr>"
  let ?w3 = "w\<lparr>posts := posts w @ [rq, rq, rq], sleeps := sleeps w @ [?d * 2, ?d * 3]\<rparr>"
  have s1: "retry_loop svc cfg keyword prompt pt 0 w = retry_loop svc cfg keyword prompt pt 1 ?w1"
    by (rule retry_loop_fail [where n = "length (posts w)"]) (use r f1 rq in simp_all)
  have s2: "retry_loop svc cfg keyword prompt pt 1 ?w1 = retry_loop svc cfg keyword prompt pt 2 ?w2"
    by (rule retry_loop_fail [where n = "length (posts w) + 1"]) (use r f2 rq in simp_all)
  have s3: "retry_loop svc cfg keyword prompt pt 2 ?w2 = (parse_qa_response t pt, ?w3)"
    by (rule retry_loop_success [where n = "length (posts w) + 2"]) (use r ok rq in simp_all)
  show ?thesis unfolding s1 s2 s3 ..
qed

text \<open>
  C4: with three configured attempts and a service whose first two attempts fail and whose
  third succeeds, \<open>generate_qa_pairs\<close> returns the pairs parsed from the third response,
  after three requests and exactly two sleeps, of \<open>retry_delay * 2\<close> and then
  \<open>retry_delay * 3\<close>.
\<close>

theorem generate_qa_pairs_third_attempt:
  assumes "occurrences \<noteq> []"
    and "generate_prompt cfg set_order policy_doc_name keyword occurrences pt = Inr prompt"
    and "retries (ollama cfg) = 3"
    and "qa_text_of (svc (length (posts w)) prompt) = None"
    and "qa_text_of (svc (length (posts w) + 1) prompt) = None"
    and "qa_text_of (svc (length (posts w) + 2) prompt) = Some t"
    and "rq = \<lparr>req_keyword = keyword, req_prompt_type = pt, req_prompt = prompt\<rparr>"
  shows "generate_qa_pairs svc cfg set_order policy_doc_name keyword occurrences pt w =
           (Inr (parse_qa_response t pt),
            w\<lparr>posts := posts w @ [rq, rq, rq],
              sleeps := sleeps w @ [retry_delay (ollama cfg) * 2, retry_delay (ollama cfg) * 3]\<rparr>)"
  using assms by (simp add: generate_qa_pairs_def retry_fail_fail_succeed)

lemma example_prompt:
  "generate_prompt example_config (\<lambda>xs. xs) ''[POLICY_DOC_001]'' ''Hartford''
     [example_occurrence] Default =
   Inr ''Ask about Hartford on pages one: [COMPANY_NAME] pays claims.''"
  by code_simp

lemma flaky_text_strip: "strip flaky_text = flaky_text"
  by code_simp

lemma flaky_text_parse:
  "parse_qa_response flaky_text Default =
     [\<lparr>question = ''Who pays as per the policy?'', answer = ''They do. (page one)''\<rparr>]"
  by code_simp

theorem generate_qa_pairs_third_attempt_witness:
  "generate_qa_pairs flaky_service example_config (\<lambda>xs. xs) ''[POLICY_DOC_001]'' ''Hartford''
      [example_occurrence] Default \<lparr>posts = [], sleeps = [], written = []\<rparr> =
   (Inr [\<lparr>question = ''Who pays as per the policy?'', answer = ''They do. (page one)''\<rparr>],
    \<lparr>posts =
       [\<lparr>req_keyword = ''Hartford'', req_prompt_type = Default,
          req_prompt = ''Ask about Hartford on pages one: [COMPANY_NAME] pays claims.''\<rparr>,
        \<lparr>req_keyword = ''Hartford'', req_prompt_type = Default,
          req_prompt = ''Ask about Hartford on pages one: [COMPANY_NAME] pays claims.''\<rparr>,
        \<lparr>req_keyword = ''Hartford'', req_prompt_type = Default,
          req_prompt = ''Ask about Hartford on pages one: [COMPANY_NAME] pays claims.''\<rparr>],
      sleeps = [4, 6], written = []\<rparr>)"
proof -
  have ne: "flaky_text \<noteq> []" by (simp add: flaky_text_def)
  show ?thesis
    using generate_qa_pairs_third_attempt [of "[example_occurrence]" example_config "\<lambda>xs. xs"
        "''[POLICY_DOC_001]''" "''Hartford''" Default _ flaky_service
        "\<lparr>posts = [], sleeps = [], written = []\<rparr>" flaky_text, OF _ example_prompt]
    by (simp add: example_config_def flaky_service_def qa_text_of_def get_or_empty_def
        flaky_text_strip flaky_text_parse ne)
qed

section \<open>Properties of the response parser\<close>













section \<open>Properties of the prompt builder\<close>














section \<open>Properties of the generation driver\<close>

lemma retry_loop_posts:
  "retry_loop svc cfg keyword prompt pt rc w = (qa, w') \<Longrightarrow>
   \<exists>new. posts w' = posts w @ new \<and> requests_of keyword pt new"
proof (induction svc cfg keyword prompt pt rc w arbitrary: qa w' rule: retry_loop.induct)
  case (1 svc cfg keyword prompt pt retry_count w)
  let ?rq = "\<lparr>req_keyword = keyword, req_prompt_type = pt, req_prompt = prompt\<rparr>"
  let ?w1 = "w\<lparr>posts := posts w @ [?rq]\<rparr>"
  show ?case
  proof (cases "int retry_count < retries (ollama cfg)")
    case False
    then have "w' = w" using "1.prems" by (subst (asm) retry_loop.simps) simp
    then show ?thesis by (simp add: requests_of_def)
  next
    case inloop: True
    show ?thesis
    proof (cases "qa_text_of (svc (length (posts w)) prompt)")
      case (Some t)
      then have "w' = ?w1" using "1.prems" inloop
        by (subst (asm) retry_loop.simps) (simp add: Let_def)
      then show ?thesis by (simp add: requests_of_def)
    next
      case None
      show ?thesis
      proof (cases "int (retry_count + 1) < retries (ollama cfg)")
        case True
        let ?w2 = "?w1\<lparr>sleeps := sleeps ?w1 @ [retry_delay (ollama cfg) * (retry_count + 1 + 1)]\<rparr>"
        have "retry_loop svc cfg keyword prompt pt (retry_count + 1) ?w2 = (qa, w')"
          using "1.prems" inloop None True by (subst (asm) retry_loop.simps) (simp add: Let_def)
        from "1.IH"(1) [OF inloop refl refl None True this]
        obtain new where "posts w' = posts ?w2 @ new" "requests_of keyword pt new" by blast
        then have "posts w' = posts w @ (?rq # new)" "requests_of keyword pt (?rq # new)"
          by (simp_all add: requests_of_def)
        then show ?thesis by blast
      next
        case False
        have "retry_loop svc cfg keyword prompt pt (retry_count + 1) ?w1 = (qa, w')"
          using "1.prems" inloop None False by (subst (asm) retry_loop.simps) (simp add: Let_def)
        from "1.IH"(2) [OF inloop refl refl None False this]
        obtain new where "posts w' = posts ?w1 @ new" "requests_of keyword pt new" by blast
        then have "posts w' = posts w @ (?rq # new)" "requests_of keyword pt (?rq # new)"
          by (simp_all add: requests_of_def)
        then show ?thesis by blast
      qed
    qed
  qed
qed

lemma generate_qa_pairs_posts:
  "generate_qa_pairs svc cfg set_order policy_doc_name keyword occs pt w = (r, w') \<Longrightarrow>
   \<exists>new. posts w' = posts w @ new \<and> requests_of keyword pt new"
proof -
  assume g: "generate_qa_pairs svc cfg set_order policy_doc_name keyword occs pt w = (r, w')"
  show ?thesis
  proof (cases "occs = [] \<or> (\<exists>e. generate_prompt cfg set_order policy_doc_name keyword occs pt = Inl e)")
    case True
    then have "w' = w" using g by (auto simp: generate_qa_pairs_def split: if_splits)
    then show ?thesis by (simp add: requests_of_def)
  next
    case False
    then obtain prompt where p: "generate_prompt cfg set_order policy_doc_name keyword occs pt = Inr prompt"
      by (cases "generate_prompt cfg set_order policy_doc_name keyword occs pt") auto
    obtain qa w1 where l: "retry_loop svc cfg keyword prompt pt 0 w = (qa, w1)"
      by (cases "retry_loop svc cfg keyword prompt pt 0 w")
    have "w' = w1" using g False p l by (simp add: generate_qa_pairs_def)
    then show ?thesis using retry_loop_posts [OF l] by simp
  qed
qed

lemma checkpoint_key_inject [simp]:
  "checkpoint_key doc_id k pt = checkpoint_key doc_id k' pt \<longleftrightarrow> k = k'"
  by (simp add: checkpoint_key_def)

lemma map_of_update_nonempty:
  "map_of (AList.update k v al) k = Some v"
  by (simp add: update_conv')

lemma add_qa_pair_json: "qa_json (add_qa_pair doc_id t om) = qa_json om"
  by (simp add: add_qa_pair_def)

lemma record_qa_pairs_json:
  "qa_json (record_qa_pairs doc_id policy keyword pairs occs fname om) =
   qa_json (add_keyword_content doc_id policy keyword pairs occs fname om)"
proof -
  have "qa_json (foldl (\<lambda>om qa. add_qa_pair doc_id (qa_text_block qa) om) om0 ps) = qa_json om0"
    for om0 ps
    by (induction ps arbitrary: om0) (simp_all add: add_qa_pair_json)
  then show ?thesis by (simp add: record_qa_pairs_def)
qed

lemma recorded_after_record:
  assumes "pairs \<noteq> []"
    and "output_managers gen' pt = record_qa_pairs doc_id policy keyword pairs occs fname om"
  shows "recorded gen' pt policy keyword"
  using assms
  by (simp add: recorded_def record_qa_pairs_json add_keyword_content_def update_conv')

lemma recorded_kept:
  assumes "recorded gen pt policy k"
    and "pairs \<noteq> []"
    and "output_managers gen' pt =
           record_qa_pairs doc_id policy keyword pairs occs fname (output_managers gen pt)"
  shows "recorded gen' pt policy k"
  using assms
  by (auto simp: recorded_def record_qa_pairs_json add_keyword_content_def update_conv'
      split: option.splits)

text \<open>What one turn of the loop does to the requests, the completed set and the outputs.\<close>

lemma process_keyword_step:
  assumes "process_keyword svc cfg set_order doc_id policy fnd fname pt keyword (hc, gen, w) =
             (r, gen', w')"
  shows "(\<exists>new. posts w' = posts w @ new \<and> requests_of keyword pt new \<and>
            (new \<noteq> [] \<longrightarrow> checkpoint_key doc_id keyword pt \<notin> processed_sections gen)) \<and>
         (gen' = gen \<or>
          processed_sections gen' = insert (checkpoint_key doc_id keyword pt) (processed_sections gen) \<and>
          recorded gen' pt policy keyword \<and>
          (\<forall>k. recorded gen pt policy k \<longrightarrow> recorded gen' pt policy k))"
proof (cases "map_of fnd keyword")
  case None
  then show ?thesis using assms by (simp add: process_keyword_def requests_of_def)
next
  case (Some occs)
  show ?thesis
  proof (cases "checkpoint_key doc_id keyword pt \<in> processed_sections gen \<or> occs = []")
    case True
    then have "gen' = gen" "w' = w"
      using assms Some by (auto simp: process_keyword_def split: if_splits)
    then show ?thesis by (simp add: requests_of_def)
  next
    case False
    obtain res w1 where g: "generate_qa_pairs svc cfg set_order policy keyword occs pt w = (res, w1)"
      by (cases "generate_qa_pairs svc cfg set_order policy keyword occs pt w")
    obtain new where new: "posts w1 = posts w @ new" "requests_of keyword pt new"
      using generate_qa_pairs_posts [OF g] by blast
    show ?thesis
    proof (cases res)
      case (Inl e)
      then have "gen' = gen" "w' = w1" using assms Some False g by (auto simp: process_keyword_def)
      then show ?thesis using new False by auto
    next
      case (Inr pairs)
      show ?thesis
      proof (cases "pairs = []")
        case True
        then have "gen' = gen" "w' = w1"
          using assms Some False g Inr by (auto simp: process_keyword_def)
        then show ?thesis using new False by auto
      next
        case nonempty: False
        have gen': "gen' = gen\<lparr>output_managers := (output_managers gen)
                              (pt := record_qa_pairs doc_id policy keyword pairs occs
                                       fname (output_managers gen pt)),
                           processed_sections :=
                             insert (checkpoint_key doc_id keyword pt) (processed_sections gen)\<rparr>"
          and w': "w' = w1"
          using assms Some False g Inr nonempty by (auto simp: process_keyword_def)
        have om: "output_managers gen' pt =
                    record_qa_pairs doc_id policy keyword pairs occs fname (output_managers gen pt)"
          by (simp add: gen')
        have "recorded gen' pt policy keyword"
          using recorded_after_record [OF nonempty om] .
        moreover have "\<forall>k. recorded gen pt policy k \<longrightarrow> recorded gen' pt policy k"
          using recorded_kept [OF _ nonempty om] by blast
        moreover have "processed_sections gen' =
                         insert (checkpoint_key doc_id keyword pt) (processed_sections gen)"
          by (simp add: gen')
        ultimately show ?thesis using new False w' by auto
      qed
    qed
  qed
qed

lemma loop_contract_refl: "loop_contract doc_id policy pt gen w gen w"
  by (simp add: loop_contract_def)

lemma loop_contract_step:
  assumes "process_keyword svc cfg set_order doc_id policy fnd fname pt keyword (hc, gen, w) =
             (r, gen', w')"
  shows "loop_contract doc_id policy pt gen w gen' w'"
proof -
  from process_keyword_step [OF assms]
  obtain new where new: "posts w' = posts w @ new" "requests_of keyword pt new"
      "new \<noteq> [] \<longrightarrow> checkpoint_key doc_id keyword pt \<notin> processed_sections gen"
    and alt: "gen' = gen \<or>
          processed_sections gen' = insert (checkpoint_key doc_id keyword pt) (processed_sections gen) \<and>
          recorded gen' pt policy keyword \<and>
          (\<forall>k. recorded gen pt policy k \<longrightarrow> recorded gen' pt policy k)"
    by blast
  have "\<forall>rq \<in> set new. req_prompt_type rq = pt \<and>
          checkpoint_key doc_id (req_keyword rq) pt \<notin> processed_sections gen"
    using new by (auto simp: requests_of_def)
  then have p: "\<exists>new. posts w' = posts w @ new \<and>
         (\<forall>rq \<in> set new. req_prompt_type rq = pt \<and>
            checkpoint_key doc_id (req_keyword rq) pt \<notin> processed_sections gen)"
    using new(1) by blast
  from alt show ?thesis
  proof
    assume "gen' = gen"
    then show ?thesis using p by (simp add: loop_contract_def)
  next
    assume "processed_sections gen' = insert (checkpoint_key doc_id keyword pt) (processed_sections gen) \<and>
          recorded gen' pt policy keyword \<and>
          (\<forall>k. recorded gen pt policy k \<longrightarrow> recorded gen' pt policy k)"
    then show ?thesis using p unfolding loop_contract_def by auto
  qed
qed

lemma loop_contract_trans:
  assumes a: "loop_contract doc_id policy pt g0 w0 g1 w1"
    and b: "loop_contract doc_id policy pt g1 w1 g2 w2"
  shows "loop_contract doc_id policy pt g0 w0 g2 w2"
proof -
  from a obtain n1 where n1: "posts w1 = posts w0 @ n1"
      "\<forall>rq \<in> set n1. req_prompt_type rq = pt \<and>
          checkpoint_key doc_id (req_keyword rq) pt \<notin> processed_sections g0"
    and s1: "processed_sections g0 \<subseteq> processed_sections g1"
    and k1: "\<forall>k \<in> processed_sections g1 - processed_sections g0.
         \<exists>keyword. k = checkpoint_key doc_id keyword pt \<and> recorded g1 pt policy keyword"
    and r1: "\<forall>k. recorded g0 pt policy k \<longrightarrow> recorded g1 pt policy k"
    unfolding loop_contract_def by blast
  from b obtain n2 where n2: "posts w2 = posts w1 @ n2"
      "\<forall>rq \<in> set n2. req_prompt_type rq = pt \<and>
          checkpoint_key doc_id (req_keyword rq) pt \<notin> processed_sections g1"
    and s2: "processed_sections g1 \<subseteq> processed_sections g2"
    and k2: "\<forall>k \<in> processed_sections g2 - processed_sections g1.
         \<exists>keyword. k = checkpoint_key doc_id keyword pt \<and> recorded g2 pt policy keyword"
    and r2: "\<forall>k. recorded g1 pt policy k \<longrightarrow> recorded g2 pt policy k"
    unfolding loop_contract_def by blast
  have "posts w2 = posts w0 @ (n1 @ n2)" using n1 n2 by simp
  moreover have "\<forall>rq \<in> set (n1 @ n2). req_prompt_type rq = pt \<and>
          checkpoint_key doc_id (req_keyword rq) pt \<notin> processed_sections g0"
    using n1 n2 s1 by auto
  ultimately have p: "\<exists>new. posts w2 = posts w0 @ new \<and>
         (\<forall>rq \<in> set new. req_prompt_type rq = pt \<and>
            checkpoint_key doc_id (req_keyword rq) pt \<notin> processed_sections g0)"
    by blast
  have k: "\<forall>k \<in> processed_sections g2 - processed_sections g0.
         \<exists>keyword. k = checkpoint_key doc_id keyword pt \<and> recorded g2 pt policy keyword"
  proof
    fix k assume k: "k \<in> processed_sections g2 - processed_sections g0"
    show "\<exists>keyword. k = checkpoint_key doc_id keyword pt \<and> recorded g2 pt policy keyword"
    proof (cases "k \<in> processed_sections g1")
      case True
      then obtain keyword where "k = checkpoint_key doc_id keyword pt" "recorded g1 pt policy keyword"
        using k k1 by blast
      then show ?thesis using r2 by blast
    next
      case False
      then show ?thesis using k k2 by blast
    qed
  qed
  show ?thesis unfolding loop_contract_def using p s1 s2 k r1 r2 by blast
qed

lemma process_keywords_contract:
  "process_keywords svc cfg set_order doc_id policy fnd fname pt ks (hc, gen, w) = (r, gen', w') \<Longrightarrow>
   loop_contract doc_id policy pt gen w gen' w'"
proof (induction ks arbitrary: hc gen w)
  case Nil
  then show ?case by (simp add: loop_contract_refl)
next
  case (Cons k ks)
  obtain r1 g1 w1 where step:
    "process_keyword svc cfg set_order doc_id policy fnd fname pt k (hc, gen, w) = (r1, g1, w1)"
    by (cases "process_keyword svc cfg set_order doc_id policy fnd fname pt k (hc, gen, w)")
  have c1: "loop_contract doc_id policy pt gen w g1 w1"
    using loop_contract_step [OF step] .
  show ?case
  proof (cases r1)
    case (Inl e)
    then have "gen' = g1" "w' = w1" using Cons.prems step by simp_all
    then show ?thesis using c1 by simp
  next
    case (Inr hc1)
    then have "process_keywords svc cfg set_order doc_id policy fnd fname pt ks (hc1, g1, w1) =
                 (r, gen', w')"
      using Cons.prems step by simp
    then have "loop_contract doc_id policy pt g1 w1 gen' w'" by (rule Cons.IH)
    then show ?thesis using c1 loop_contract_trans by blast
  qed
qed

lemma save_doc_outputs_keeps:
  "save_doc_outputs cfg pt doc_id policy om w = (r, om', w') \<Longrightarrow>
   qa_json om' = qa_json om \<and> posts w' = posts w"
  by (auto simp: save_doc_outputs_def Let_def split: option.splits if_splits sum.splits)

lemma empty_result_keeps_state:
  assumes "map_of fnd keyword = Some occs"
    and "generate_qa_pairs svc cfg set_order policy keyword occs pt w = (Inr [], w1)"
  shows "fst (snd (process_keyword svc cfg set_order doc_id policy fnd fname pt keyword (hc, gen, w))) = gen"
  using assms by (simp add: process_keyword_def)

text \<open>
  C3: in one call of the generation driver for a document and a prompt variant, every
  request issued belongs to a unit whose key was not in the completed set when the call
  began, so a unit that is already completed is never requested again; the completed set
  only grows, each key it gains is the key of a unit for which a non-empty list of pairs
  is recorded in the outputs, and a turn whose generation result is empty leaves the set
  as it was.
\<close>

theorem checkpoint_contract:
  assumes run: "process_document_keywords svc cfg set_order doc_id fnd fname pt gen w = (r, gen', w')"
  shows "(\<exists>new. posts w' = posts w @ new \<and>
            (\<forall>rq \<in> set new. req_prompt_type rq = pt \<and>
               checkpoint_key doc_id (req_keyword rq) pt \<notin> processed_sections gen)) \<and>
         processed_sections gen \<subseteq> processed_sections gen' \<and>
         (\<forall>k \<in> processed_sections gen' - processed_sections gen.
            \<exists>keyword policy. k = checkpoint_key doc_id keyword pt \<and>
              get_policy_doc_name doc_id = Inr policy \<and> recorded gen' pt policy keyword) \<and>
         (\<forall>keyword occs policy hc g1 w1 w2.
            map_of fnd keyword = Some occs \<longrightarrow>
            generate_qa_pairs svc cfg set_order policy keyword occs pt w1 = (Inr [], w2) \<longrightarrow>
            processed_sections (fst (snd (process_keyword svc cfg set_order doc_id policy fnd fname pt
              keyword (hc, g1, w1)))) = processed_sections g1)"
proof -
  have last: "\<forall>keyword occs policy hc g1 w1 w2.
            map_of fnd keyword = Some occs \<longrightarrow>
            generate_qa_pairs svc cfg set_order policy keyword occs pt w1 = (Inr [], w2) \<longrightarrow>
            processed_sections (fst (snd (process_keyword svc cfg set_order doc_id policy fnd fname pt
              keyword (hc, g1, w1)))) = processed_sections g1"
    using empty_result_keeps_state by simp
  show ?thesis
  proof (cases "get_policy_doc_name doc_id")
    case (Inl e)
    then have "gen' = gen" "w' = w" using run by (simp_all add: process_document_keywords_def)
    then show ?thesis using last by simp
  next
    case (Inr policy)
    obtain r1 g1 w1 where loop:
      "process_keywords svc cfg set_order doc_id policy fnd fname pt (keywords_cfg cfg) (False, gen, w) =
         (r1, g1, w1)"
      by (cases "process_keywords svc cfg set_order doc_id policy fnd fname pt (keywords_cfg cfg)
            (False, gen, w)")
    have c: "loop_contract doc_id policy pt gen w g1 w1"
      using process_keywords_contract [OF loop] .
    have "processed_sections gen' = processed_sections g1 \<and> posts w' = posts w1 \<and>
          qa_json (output_managers gen' pt) = qa_json (output_managers g1 pt)"
    proof (cases "r1 = Inr True")
      case True
      obtain r2 om w2 where sv:
        "save_doc_outputs cfg pt doc_id policy (output_managers g1 pt) w1 = (r2, om, w2)"
        by (cases "save_doc_outputs cfg pt doc_id policy (output_managers g1 pt) w1")
      have "gen' = g1\<lparr>output_managers := (output_managers g1)(pt := om)\<rparr>" "w' = w2"
        using run Inr loop True sv by (simp_all add: process_document_keywords_def)
      then show ?thesis using save_doc_outputs_keeps [OF sv] by simp
    next
      case False
      then have "gen' = g1" "w' = w1"
        using run Inr loop by (cases r1; auto simp: process_document_keywords_def)+
      then show ?thesis by simp
    qed
    then have same: "processed_sections gen' = processed_sections g1" "posts w' = posts w1"
      and rec: "\<And>k. recorded gen' pt policy k = recorded g1 pt policy k"
      by (simp_all add: recorded_def)
    show ?thesis using c last Inr unfolding loop_contract_def by (simp add: same rec)
  qed
qed

lemma first_run_posts:
  "posts (snd (snd first_run)) =
     [\<lparr>req_keyword = ''Hartford'', req_prompt_type = Default,
       req_prompt = ''Ask about Hartford on pages one: [COMPANY_NAME] pays claims.''\<rparr>]"
  by code_simp

lemma first_run_written:
  "written (snd (snd first_run)) =
     [''processed_outputs/qa_outputs/default/doc_001_qa.txt'',
      ''processed_outputs/qa_outputs/default/doc_001_qa.json'']"
  by code_simp

lemma first_run_completed:
  "checkpoint_key ''doc_001'' ''Hartford'' Default \<in> processed_sections (fst (snd first_run))"
  by code_simp

lemma second_run_posts: "posts (snd (snd second_run)) = posts (snd (snd first_run))"
  by code_simp

theorem checkpoint_contract_witness:
  "(\<exists>new. posts (snd (snd second_run)) = posts (snd (snd first_run)) @ new \<and>
      (\<forall>rq \<in> set new. req_prompt_type rq = Default \<and>
         checkpoint_key ''doc_001'' (req_keyword rq) Default
           \<notin> processed_sections (fst (snd first_run)))) \<and>
   processed_sections (fst (snd first_run)) \<subseteq> processed_sections (fst (snd second_run))"
  using checkpoint_contract [of steady_service example_config "\<lambda>xs. xs" "''doc_001''"
      example_findings "Name ''policy.pdf''" Default "fst (snd first_run)" "snd (snd first_run)"
      "fst second_run" "fst (snd second_run)" "snd (snd second_run)"]
  by (simp add: second_run_def)

section \<open>Properties of the context window\<close>

lemma join_append_one:
  "join sep (ps @ [p]) = (if ps = [] then p else join sep ps @ sep @ p)"
  by (induction sep ps rule: join.induct) auto

lemma forward_context_Inr:
  assumes "forward_context blocks idx offs parts = Inr parts'"
    and "sorted_wrt (<) offs"
  shows "\<exists>fj. parts' = parts @ map (\<lambda>j. get_block_text (blocks ! j)) fj \<and>
           sorted_wrt (<) fj \<and>
           (\<forall>j \<in> set fj. j < length blocks \<and> (\<exists>i \<in> set offs. j = idx + i)) \<and>
           (\<forall>j \<in> set fj. \<forall>j' \<in> set fj. j < j' \<longrightarrow> block_is_header (blocks ! j) = Inr False) \<and>
           (\<forall>j' \<in> set fj. \<forall>i \<in> set offs.
              idx + i < j' \<and> get_block_text (blocks ! (idx + i)) \<noteq> [] \<longrightarrow> idx + i \<in> set fj)"
  using assms
proof (induction offs arbitrary: parts)
  case Nil
  then show ?case by (intro exI [of _ "[]"]) simp
next
  case (Cons i rest)
  let ?t = "get_block_text (blocks ! (idx + i))"
  have srest: "sorted_wrt (<) rest" and above: "\<forall>i' \<in> set rest. i < i'"
    using Cons.prems(2) by simp_all
  show ?case
  proof (cases "idx + i < length blocks \<and> ?t \<noteq> []")
    case False
    then have "forward_context blocks idx rest parts = Inr parts'"
      using Cons.prems(1) by (auto simp: Let_def split: if_splits)
    from Cons.IH [OF this srest] obtain fj where fj:
      "parts' = parts @ map (\<lambda>j. get_block_text (blocks ! j)) fj" "sorted_wrt (<) fj"
      "\<forall>j \<in> set fj. j < length blocks \<and> (\<exists>i \<in> set rest. j = idx + i)"
      "\<forall>j \<in> set fj. \<forall>j' \<in> set fj. j < j' \<longrightarrow> block_is_header (blocks ! j) = Inr False"
      "\<forall>j' \<in> set fj. \<forall>i \<in> set rest.
              idx + i < j' \<and> get_block_text (blocks ! (idx + i)) \<noteq> [] \<longrightarrow> idx + i \<in> set fj"
      by blast
    have "\<forall>j' \<in> set fj. \<forall>i' \<in> set (i # rest).
              idx + i' < j' \<and> get_block_text (blocks ! (idx + i')) \<noteq> [] \<longrightarrow> idx + i' \<in> set fj"
      using fj(3,5) False by auto
    moreover have "\<forall>j \<in> set fj. j < length blocks \<and> (\<exists>i' \<in> set (i # rest). j = idx + i')"
      using fj(3) by auto
    ultimately show ?thesis using fj(1,2,4) by blast
  next
    case True
    show ?thesis
    proof (cases "block_is_header (blocks ! (idx + i))")
      case (Inl e)
      then show ?thesis using Cons.prems(1) True by (simp add: Let_def)
    next
      case (Inr h)
      show ?thesis
      proof (cases h)
        case True
        then have "parts' = parts @ [?t]"
          using Cons.prems(1) \<open>idx + i < length blocks \<and> ?t \<noteq> []\<close> Inr by (simp add: Let_def)
        then show ?thesis
          using \<open>idx + i < length blocks \<and> ?t \<noteq> []\<close> above
          by (intro exI [of _ "[idx + i]"]) auto
      next
        case False
        then have "forward_context blocks idx rest (parts @ [?t]) = Inr parts'"
          using Cons.prems(1) \<open>idx + i < length blocks \<and> ?t \<noteq> []\<close> Inr by (simp add: Let_def)
        from Cons.IH [OF this srest] obtain fj where fj:
          "parts' = (parts @ [?t]) @ map (\<lambda>j. get_block_text (blocks ! j)) fj" "sorted_wrt (<) fj"
          "\<forall>j \<in> set fj. j < length blocks \<and> (\<exists>i \<in> set rest. j = idx + i)"
          "\<forall>j \<in> set fj. \<forall>j' \<in> set fj. j < j' \<longrightarrow> block_is_header (blocks ! j) = Inr False"
          "\<forall>j' \<in> set fj. \<forall>i \<in> set rest.
              idx + i < j' \<and> get_block_text (blocks ! (idx + i)) \<noteq> [] \<longrightarrow> idx + i \<in> set fj"
          by blast
        let ?fj = "(idx + i) # fj"
        have gt: "\<forall>j \<in> set fj. idx + i < j" using fj(3) above by auto
        have 1: "parts' = parts @ map (\<lambda>j. get_block_text (blocks ! j)) ?fj" using fj(1) by simp
        have 2: "sorted_wrt (<) ?fj" using fj(2) gt by simp
        have 3: "\<forall>j \<in> set ?fj. j < length blocks \<and> (\<exists>i' \<in> set (i # rest). j = idx + i')"
          using fj(3) \<open>idx + i < length blocks \<and> ?t \<noteq> []\<close> by auto
        have 4: "\<forall>j \<in> set ?fj. \<forall>j' \<in> set ?fj. j < j' \<longrightarrow> block_is_header (blocks ! j) = Inr False"
          using fj(4) gt Inr False by auto
        have 5: "\<forall>j' \<in> set ?fj. \<forall>i' \<in> set (i # rest).
              idx + i' < j' \<and> get_block_text (blocks ! (idx + i')) \<noteq> [] \<longrightarrow> idx + i' \<in> set ?fj"
          using fj(5) above by auto
        show ?thesis using 1 2 3 4 5 by blast
      qed
    qed
  qed
qed

text \<open>
  C5: a window that \<open>find_keyword_context\<close> returns is the texts, joined by spaces, of
  blocks taken in increasing order from the indices \<open>idx - 1\<close> to \<open>idx + 3\<close>, the
  matched block among them. No block that follows a forward block classified as a heading
  is part of it, and every forward block with text that precedes a block of the window is
  part of it, so the forward extension ends at the first heading.
\<close>

theorem window_blocks:
  assumes "find_keyword_context blocks keyword idx = Inr (Some window)"
  shows "\<exists>js. window = join '' '' (map (\<lambda>j. get_block_text (blocks ! j)) js) \<and>
           sorted_wrt (<) js \<and> idx \<in> set js \<and>
           (\<forall>j \<in> set js. idx - 1 \<le> j \<and> j \<le> idx + 3 \<and> j < length blocks) \<and>
           (\<forall>j \<in> set js. \<forall>j' \<in> set js.
              idx < j \<and> j < j' \<longrightarrow> block_is_header (blocks ! j) = Inr False) \<and>
           (\<forall>j' \<in> set js. \<forall>j. idx < j \<and> j < j' \<and> get_block_text (blocks ! j) \<noteq> [] \<longrightarrow> j \<in> set js)"
proof -
  let ?text = "\<lambda>j. get_block_text (blocks ! j)"
  let ?prev = "if idx > 0 \<and> ?text (idx - 1) \<noteq> [] then [idx - 1] else []"
  let ?parts = "(if (if idx > 0 then ?text (idx - 1) else []) \<noteq> []
                 then [if idx > 0 then ?text (idx - 1) else []] else []) @ [?text idx]"
  have inr: "idx < length blocks" and kw: "contains (?text idx) keyword"
    using assms by (auto simp: find_keyword_context_def Let_def split: if_splits)
  obtain parts' where fw: "forward_context blocks idx [1, 2, 3] ?parts = Inr parts'"
    and w: "window = join '' '' parts'"
    using assms inr kw by (auto simp: find_keyword_context_def Let_def split: sum.splits)
  have "sorted_wrt (<) [1, 2, 3 :: nat]" by simp
  from forward_context_Inr [OF fw this] obtain fj where fj:
    "parts' = ?parts @ map ?text fj" "sorted_wrt (<) fj"
    "\<forall>j \<in> set fj. j < length blocks \<and> (\<exists>i \<in> set [1, 2, 3 :: nat]. j = idx + i)"
    "\<forall>j \<in> set fj. \<forall>j' \<in> set fj. j < j' \<longrightarrow> block_is_header (blocks ! j) = Inr False"
    "\<forall>j' \<in> set fj. \<forall>i \<in> set [1, 2, 3 :: nat].
        idx + i < j' \<and> ?text (idx + i) \<noteq> [] \<longrightarrow> idx + i \<in> set fj"
    by blast
  let ?js = "?prev @ [idx] @ fj"
  have range: "\<forall>j \<in> set fj. idx < j \<and> j \<le> idx + 3 \<and> j < length blocks"
    using fj(3) by auto
  have parts: "?parts = map ?text (?prev @ [idx])" by simp
  have 1: "window = join '' '' (map ?text ?js)" unfolding w fj(1) parts by simp
  have 2: "sorted_wrt (<) ?js" using fj(2) range by (auto simp: sorted_wrt_append)
  have 3: "\<forall>j \<in> set ?js. idx - 1 \<le> j \<and> j \<le> idx + 3 \<and> j < length blocks"
    using range inr by auto
  have 4: "\<forall>j \<in> set ?js. \<forall>j' \<in> set ?js.
              idx < j \<and> j < j' \<longrightarrow> block_is_header (blocks ! j) = Inr False"
    using fj(4) range by auto
  have 5: "\<forall>j' \<in> set ?js. \<forall>j. idx < j \<and> j < j' \<and> ?text j \<noteq> [] \<longrightarrow> j \<in> set ?js"
  proof (intro ballI allI impI)
    fix j' j assume j': "j' \<in> set ?js" and j: "idx < j \<and> j < j' \<and> ?text j \<noteq> []"
    then have "j' \<in> set fj" by (auto split: if_splits)
    then have "j' \<le> idx + 3" using range by blast
    then have "j = idx + 1 \<or> j = idx + 2 \<or> j = idx + 3" using j by arith
    then have "\<exists>i \<in> set [1, 2, 3 :: nat]. j = idx + i" by auto
    then show "j \<in> set ?js" using fj(5) \<open>j' \<in> set fj\<close> j by auto
  qed
  have "idx \<in> set ?js" by simp
  then show ?thesis using 1 2 3 4 5 by blast
qed

lemma example_window:
  "find_keyword_context example_blocks ''Hartford'' 1 =
     Inr (Some ''Policy overview. Hartford pays the claims of members. Claims are paid monthly. EXCLUSIONS'')"
  by code_simp

theorem window_blocks_witness:
  "\<exists>js. ''Policy overview. Hartford pays the claims of members. Claims are paid monthly. EXCLUSIONS'' =
           join '' '' (map (\<lambda>j. get_block_text (example_blocks ! j)) js) \<and>
         sorted_wrt (<) js \<and> 1 \<in> set js \<and>
         (\<forall>j \<in> set js. 1 - 1 \<le> j \<and> j \<le> 1 + 3 \<and> j < length example_blocks) \<and>
         (\<forall>j \<in> set js. \<forall>j' \<in> set js.
            1 < j \<and> j < j' \<longrightarrow> block_is_header (example_blocks ! j) = Inr False) \<and>
         (\<forall>j' \<in> set js. \<forall>j. 1 < j \<and> j < j' \<and> get_block_text (example_blocks ! j) \<noteq> [] \<longrightarrow> j \<in> set js)"
  by (rule window_blocks [OF example_window])

text \<open>
  C10: \<open>find_keyword_context\<close> does not return normally on every well-formed input. When
  the block after the matched one has text, is neither upper-case nor ends in a colon, and
  its first line carries an empty list of spans, the heading test reads the first span of
  that empty list and the call ends in \<open>IndexError\<close>.
\<close>

theorem spanless_first_line_faults:
  "find_keyword_context spanless_blocks ''Hartford'' 0 = Inl IndexError"
  by code_simp

section \<open>Properties of the masker\<close>

lemma matches_length: "matches r prev s n \<Longrightarrow> n \<le> length s"
proof (induction r arbitrary: prev s n)
  case (Seq a b)
  then obtain m where m: "m \<le> n" "matches a prev s m"
    "matches b (prev_after prev s m) (drop m s) (n - m)" by auto
  have "n - m \<le> length (drop m s)" using Seq.IH(2) m(3) by blast
  moreover have "m \<le> length s" using Seq.IH(1) m(2) by blast
  ultimately show ?case using m(1) by simp
qed auto

lemma prev_after_drop:
  "m \<le> n \<Longrightarrow> n \<le> length s \<Longrightarrow>
   prev_after (prev_after prev s m) (drop m s) (n - m) = prev_after prev s n"
proof (cases "n - m")
  case 0
  assume "m \<le> n" then show ?thesis using 0 by simp
next
  case (Suc d)
  assume "m \<le> n" "n \<le> length s"
  then have "n = Suc (m + d)" using Suc by simp
  then show ?thesis using Suc \<open>n \<le> length s\<close> by simp
qed

lemma try_counts_sound:
  "try_counts k prev s lo n = Some x \<Longrightarrow>
   \<exists>m. lo \<le> m \<and> m \<le> n \<and> k (prev_after prev s m) (drop m s) = Some x"
proof (induction n)
  case 0
  then show ?case by (auto split: if_splits)
next
  case (Suc n)
  show ?case
  proof (cases "k (Some (s ! n)) (drop (Suc n) s)")
    case None
    then have "try_counts k prev s lo n = Some x" using Suc.prems by (auto split: if_splits)
    then show ?thesis using Suc.IH by (meson le_Suc_eq)
  next
    case (Some y)
    then have "y = x" "lo \<le> Suc n" using Suc.prems by (auto split: if_splits)
    then show ?thesis using Some by (intro exI [of _ "Suc n"]) simp
  qed
qed

lemma try_counts_complete:
  "lo \<le> m \<Longrightarrow> m \<le> n \<Longrightarrow> k (prev_after prev s m) (drop m s) = Some y \<Longrightarrow>
   \<exists>x. try_counts k prev s lo n = Some x"
proof (induction n)
  case 0
  then show ?case by simp
next
  case (Suc n)
  show ?case
  proof (cases "m = Suc n")
    case True
    then show ?thesis using Suc.prems by simp
  next
    case False
    then have "m \<le> n" using Suc.prems by simp
    then obtain x where "try_counts k prev s lo n = Some x" using Suc by blast
    then show ?thesis using Suc.prems \<open>m \<le> n\<close> by (auto split: option.splits)
  qed
qed

lemma take_takeWhile_all:
  "m \<le> length (takeWhile P s) \<Longrightarrow> \<forall>c \<in> set (take m s). P c"
proof -
  assume m: "m \<le> length (takeWhile P s)"
  have "take m s = take m (takeWhile P s)"
    by (metis m takeWhile_dropWhile_id take_append diff_is_0_eq' take_0 append_Nil2)
  then show ?thesis by (metis in_set_takeD set_takeWhileD)
qed

lemma all_take_le_takeWhile:
  "m \<le> length s \<Longrightarrow> \<forall>c \<in> set (take m s). P c \<Longrightarrow> m \<le> length (takeWhile P s)"
proof (induction s arbitrary: m)
  case Nil
  then show ?case by simp
next
  case (Cons c cs)
  then show ?case by (cases m) auto
qed

lemma rmatch_sound:
  "rmatch r k prev s = Some x \<Longrightarrow>
   \<exists>n. matches r prev s n \<and> k (prev_after prev s n) (drop n s) = Some x"
proof (induction r arbitrary: k prev s x)
  case Eps
  then show ?case by (intro exI [of _ 0]) simp
next
  case Boundary
  then show ?case by (intro exI [of _ 0]) (auto split: if_splits)
next
  case (Rep cls lo hi)
  let ?n = "let n = length (takeWhile (cmatch cls) s) in case hi of None \<Rightarrow> n | Some h \<Rightarrow> min n h"
  from Rep obtain m where m: "lo \<le> m" "m \<le> ?n" "k (prev_after prev s m) (drop m s) = Some x"
    using try_counts_sound [of k prev s lo ?n x] by auto
  have le: "m \<le> length (takeWhile (cmatch cls) s)" and hi: "case hi of None \<Rightarrow> True | Some h \<Rightarrow> m \<le> h"
    using m(2) by (auto simp: Let_def split: option.splits)
  have "m \<le> length s" using le by (meson le_trans length_takeWhile_le)
  moreover have "\<forall>c \<in> set (take m s). cmatch cls c" using le by (rule take_takeWhile_all)
  ultimately show ?case using m(1,3) hi by (intro exI [of _ m]) simp
next
  case (Seq a b)
  then have "rmatch a (rmatch b k) prev s = Some x" by simp
  then obtain m where m: "matches a prev s m"
    "rmatch b k (prev_after prev s m) (drop m s) = Some x"
    using Seq.IH(1) [of "rmatch b k" prev s x] by blast
  then obtain d where d: "matches b (prev_after prev s m) (drop m s) d"
    "k (prev_after (prev_after prev s m) (drop m s) d) (drop d (drop m s)) = Some x"
    using Seq.IH(2) [of k "prev_after prev s m" "drop m s" x] by blast
  have ml: "m \<le> length s" using m(1) by (rule matches_length)
  have dl: "d \<le> length s - m" using matches_length [OF d(1)] by simp
  have "prev_after (prev_after prev s m) (drop m s) (m + d - m) = prev_after prev s (m + d)"
    using ml dl by (intro prev_after_drop) simp_all
  then have "k (prev_after prev s (m + d)) (drop (m + d) s) = Some x"
    using d(2) by (simp add: add.commute)
  moreover have "matches (Seq a b) prev s (m + d)"
    using m(1) d(1) by (auto intro!: exI [of _ m])
  ultimately show ?case by blast
next
  case (Alt a b)
  show ?case
  proof (cases "rmatch a k prev s")
    case None
    then have "rmatch b k prev s = Some x" using Alt.prems by simp
    then show ?thesis using Alt.IH(2) [of k prev s x] by auto
  next
    case (Some y)
    then have "rmatch a k prev s = Some x" using Alt.prems by simp
    then show ?thesis using Alt.IH(1) [of k prev s x] by auto
  qed
qed

lemma rmatch_complete:
  "matches r prev s n \<Longrightarrow> k (prev_after prev s n) (drop n s) = Some y \<Longrightarrow>
   \<exists>x. rmatch r k prev s = Some x"
proof (induction r arbitrary: k prev s n y)
  case Eps
  then show ?case by simp
next
  case Boundary
  then show ?case by simp
next
  case (Rep cls lo hi)
  let ?n = "let n = length (takeWhile (cmatch cls) s) in case hi of None \<Rightarrow> n | Some h \<Rightarrow> min n h"
  have "n \<le> length (takeWhile (cmatch cls) s)"
    using Rep.prems(1) by (intro all_take_le_takeWhile) simp_all
  then have "n \<le> ?n" using Rep.prems(1) by (auto simp: Let_def split: option.splits)
  moreover have "lo \<le> n" using Rep.prems(1) by simp
  ultimately show ?case
    using try_counts_complete [of lo n ?n k prev s y] Rep.prems(2) by simp
next
  case (Seq a b)
  then obtain m where m: "m \<le> n" "matches a prev s m"
    "matches b (prev_after prev s m) (drop m s) (n - m)" by auto
  have nl: "n \<le> length s" using Seq.prems(1) by (rule matches_length)
  have "prev_after (prev_after prev s m) (drop m s) (n - m) = prev_after prev s n"
    using m(1) nl by (rule prev_after_drop)
  then have "k (prev_after (prev_after prev s m) (drop m s) (n - m)) (drop (n - m) (drop m s)) = Some y"
    using Seq.prems(2) m(1) by simp
  then obtain x where "rmatch b k (prev_after prev s m) (drop m s) = Some x"
    using Seq.IH(2) [of "prev_after prev s m" "drop m s" "n - m" k y] m(3) by blast
  then show ?case
    using Seq.IH(1) [of prev s m "rmatch b k" x] m(2) by simp
next
  case (Alt a b)
  show ?case
  proof (cases "rmatch a k prev s")
    case None
    then have "\<not> matches a prev s n" using Alt.IH(1) [of prev s n k y] Alt.prems(2) by auto
    then have "matches b prev s n" using Alt.prems(1) by simp
    then show ?thesis using Alt.IH(2) [of prev s n k y] Alt.prems(2) None by simp
  next
    case (Some x)
    then show ?thesis by simp
  qed
qed

lemma digit_is_word: "is_ascii_digit c \<Longrightarrow> is_word c"
  by (simp add: is_ascii_digit_def is_word_def)

lemma in_range_mono: "in_range c lo hi \<Longrightarrow> lo' \<le> lo \<Longrightarrow> hi \<le> hi' \<Longrightarrow> in_range c lo' hi'"
  by (simp add: in_range_def)

lemma lower_char_word: "is_word (lower_char c) \<Longrightarrow> is_word c"
proof (cases "is_upper_char c")
  case True
  then consider "in_range c 65 90" | "in_range c 192 214" | "in_range c 216 222"
    by (auto simp: is_upper_char_def)
  then show ?thesis
  proof cases
    case 1 then show ?thesis by (simp add: is_word_def)
  next
    case 2 then show ?thesis by (simp add: is_word_def)
  next
    case 3
    then have "in_range c 216 246" by (rule in_range_mono) simp_all
    then show ?thesis by (simp add: is_word_def)
  qed
next
  case False
  assume "is_word (lower_char c)"
  then show ?thesis using False by (simp add: lower_char_def)
qed

lemma upper_char_word: "is_word (upper_char c) \<Longrightarrow> is_word c"
proof (cases "in_range c 97 122 \<or> in_range c 224 246 \<or> in_range c 248 254")
  case True
  then consider "in_range c 97 122" | "in_range c 224 246" | "in_range c 248 254" by auto
  then show ?thesis
  proof cases
    case 1 then show ?thesis by (simp add: is_word_def)
  next
    case 2
    then have "in_range c 216 246" by (rule in_range_mono) simp_all
    then show ?thesis by (simp add: is_word_def)
  next
    case 3
    then have "in_range c 248 255" by (rule in_range_mono) simp_all
    then show ?thesis by (simp add: is_word_def)
  qed
next
  case False
  assume "is_word (upper_char c)"
  then show ?thesis using False by (simp add: upper_char_def)
qed

lemma sub_word_cmatch: "sub_word cls \<Longrightarrow> cmatch cls c \<Longrightarrow> is_word c"
proof (induction cls arbitrary: c)
  case Digit
  then show ?case by (simp add: digit_is_word)
next
  case (AnyOf cs)
  then obtain cls where "cls \<in> set cs" "cmatch cls c" by auto
  then show ?case using AnyOf.IH AnyOf.prems(1) by simp
next
  case (NoCase cls)
  have s: "sub_word cls" using NoCase.prems(1) by simp
  from NoCase.prems(2) show ?case
  proof (simp only: cmatch.simps, elim disjE)
    assume "cmatch cls (lower_char c)"
    then have "is_word (lower_char c)" using NoCase.IH s by blast
    then show ?thesis by (rule lower_char_word)
  next
    assume "cmatch cls (upper_char c)"
    then have "is_word (upper_char c)" using NoCase.IH s by blast
    then show ?thesis by (rule upper_char_word)
  qed
qed simp_all

lemma word_at_drop: "m < length s \<Longrightarrow> word_at (drop m s) = is_word (s ! m)"
proof -
  assume "m < length s"
  then have "drop m s = s ! m # drop (Suc m) s" by (rule Cons_nth_drop_Suc [symmetric])
  then show ?thesis by (simp only: word_at_def list.case)
qed

lemma matches_local:
  assumes "matches r prev s n"
    and "take n s' = take n s" and "n \<le> length s'"
    and "word_before prev' = word_before prev"
    and "word_at (drop n s') = word_at (drop n s)"
  shows "matches r prev' s' n"
  using assms
proof (induction r arbitrary: prev prev' s s' n)
  case Eps
  then show ?case by simp
next
  case Boundary
  then show ?case by (simp add: at_boundary_def)
next
  case (Rep cls lo hi)
  then show ?case by simp
next
  case (Seq a b)
  from Seq.prems(1) obtain m where m: "m \<le> n" "matches a prev s m"
    "matches b (prev_after prev s m) (drop m s) (n - m)" by auto
  have nl: "n \<le> length s" using Seq.prems(1) by (rule matches_length)
  have tk: "take m s' = take m s"
    using Seq.prems(2) m(1) by (metis min.absorb1 take_take)
  have nth: "\<And>i. i < n \<Longrightarrow> s' ! i = s ! i"
    using Seq.prems(2) by (metis nth_take)
  have wa: "word_at (drop m s') = word_at (drop m s)"
  proof (cases "m = n")
    case True
    then show ?thesis using Seq.prems(5) by simp
  next
    case False
    then have "m < n" using m(1) by simp
    then show ?thesis using nl Seq.prems(3) nth by (simp add: word_at_drop)
  qed
  have a: "matches a prev' s' m"
    using Seq.IH(1) [OF m(2) tk _ Seq.prems(4) wa] Seq.prems(3) m(1) by simp
  have wb: "word_before (prev_after prev' s' m) = word_before (prev_after prev s m)"
  proof (cases m)
    case 0
    then show ?thesis using Seq.prems(4) by simp
  next
    case (Suc k)
    then show ?thesis using nth [of k] m(1) by simp
  qed
  have tk2: "take (n - m) (drop m s') = take (n - m) (drop m s)"
    using Seq.prems(2) m(1) by (metis drop_take)
  have b: "matches b (prev_after prev' s' m) (drop m s') (n - m)"
    using Seq.IH(2) [OF m(3) tk2 _ wb] Seq.prems(3,5) m(1) by simp
  show ?case using a b m(1) by auto
next
  case (Alt a b)
  then show ?case by auto
qed

lemma avoids_matches: "avoids x r \<Longrightarrow> matches r prev s n \<Longrightarrow> x \<notin> set (take n s)"
proof (induction r arbitrary: prev s n)
  case Eps
  then show ?case by simp
next
  case Boundary
  then show ?case by simp
next
  case (Rep cls lo hi)
  then show ?case by auto
next
  case (Seq a b)
  from Seq.prems(2) obtain m where m: "m \<le> n" "matches a prev s m"
    "matches b (prev_after prev s m) (drop m s) (n - m)" by auto
  have "take n s = take m s @ take (n - m) (drop m s)"
    using m(1) by (metis le_add_diff_inverse take_add)
  moreover have "x \<notin> set (take m s)" using Seq.IH(1) Seq.prems(1) m(2) by simp
  moreover have "x \<notin> set (take (n - m) (drop m s))" using Seq.IH(2) Seq.prems(1) m(3) by simp
  ultimately show ?case by simp
next
  case (Alt a b)
  then show ?case by (cases "matches a prev s n") simp_all
qed

lemma starts_boundary_matches:
  "starts_boundary r \<Longrightarrow> matches r prev s n \<Longrightarrow> at_boundary prev s"
proof (induction r arbitrary: n)
  case (Seq a b)
  from Seq.prems(2) obtain m where "matches a prev s m" by auto
  then show ?case using Seq.IH(1) Seq.prems(1) by simp
next
  case (Alt a b)
  then show ?case by (cases "matches a prev s n") simp_all
qed simp_all

lemma nonempty_matches: "nonempty r \<Longrightarrow> matches r prev s n \<Longrightarrow> 0 < n"
proof (induction r arbitrary: prev s n)
  case (Seq a b)
  from Seq.prems(2) obtain m where m: "m \<le> n" "matches a prev s m"
    "matches b (prev_after prev s m) (drop m s) (n - m)" by auto
  show ?case
  proof (cases "nonempty a")
    case True
    then have "0 < m" using Seq.IH(1) m(2) by blast
    then show ?thesis using m(1) by simp
  next
    case False
    then have "nonempty b" using Seq.prems(1) by simp
    then have "0 < n - m" using Seq.IH(2) m(3) by blast
    then show ?thesis by simp
  qed
qed auto

lemma word_tail_matches:
  "word_tail r \<Longrightarrow> matches r prev s n \<Longrightarrow> n = 0 \<or> is_word (s ! (n - 1))"
proof (induction r arbitrary: prev s n)
  case (Rep cls lo hi)
  show ?case
  proof (cases n)
    case 0
    then show ?thesis by simp
  next
    case (Suc k)
    have "k < length (take n s)" using Rep.prems(2) Suc by simp
    then have "take n s ! k \<in> set (take n s)" by (rule nth_mem)
    then have "s ! k \<in> set (take n s)" using Suc by simp
    then have "cmatch cls (s ! k)" using Rep.prems(2) by simp
    then show ?thesis using Rep.prems(1) Suc sub_word_cmatch by simp
  qed
next
  case (Seq a b)
  from Seq.prems(2) obtain m where m: "m \<le> n" "matches a prev s m"
    "matches b (prev_after prev s m) (drop m s) (n - m)" by auto
  have ml: "m \<le> length s" using m(2) by (rule matches_length)
  have wb: "word_tail b" using Seq.prems(1) by simp
  show ?case
  proof (cases "n - m")
    case 0
    then have nm: "n = m" using m(1) by simp
    have "\<not> nonempty b" using nonempty_matches [OF _ m(3)] 0 by auto
    then have "word_tail a" using Seq.prems(1) by auto
    then show ?thesis using Seq.IH(1) m(2) nm by blast
  next
    case (Suc d)
    then have "is_word ((drop m s) ! (n - m - 1))"
      using Seq.IH(2) [OF wb m(3)] by simp
    moreover have "m + (n - m - 1) = n - 1" using Suc m(1) by simp
    then have "(drop m s) ! (n - m - 1) = s ! (n - 1)"
      using ml by simp
    ultimately show ?thesis by simp
  qed
next
  case (Alt a b)
  then show ?case by (cases "matches a prev s n") simp_all
qed simp_all

lemma ends_boundary_matches:
  "ends_boundary r \<Longrightarrow> matches r prev s n \<Longrightarrow>
   0 < n \<and> is_word (s ! (n - 1)) \<and> \<not> word_at (drop n s)"
proof (induction r arbitrary: prev s n)
  case (Seq a b)
  from Seq.prems(2) obtain m where m: "m \<le> n" "matches a prev s m"
    "matches b (prev_after prev s m) (drop m s) (n - m)" by auto
  have ml: "m \<le> length s" using m(2) by (rule matches_length)
  show ?case
  proof (cases "ends_boundary b")
    case True
    from Seq.IH(2) [OF True m(3)]
    have d: "0 < n - m" "is_word ((drop m s) ! (n - m - 1))" "\<not> word_at (drop (n - m) (drop m s))"
      by auto
    have "m + (n - m - 1) = n - 1" using d(1) m(1) by simp
    then have "(drop m s) ! (n - m - 1) = s ! (n - 1)" using ml by simp
    then show ?thesis using d m(1) by simp
  next
    case False
    then have b: "b = Boundary" and wa: "word_tail a" and na: "nonempty a"
      using Seq.prems(1) by auto
    have nm: "n = m" and bd: "at_boundary (prev_after prev s m) (drop m s)"
      using m(1,3) b by auto
    have pos: "0 < m" using nonempty_matches [OF na m(2)] .
    then have w: "is_word (s ! (m - 1))" using word_tail_matches [OF wa m(2)] by auto
    obtain k where k: "m = Suc k" using pos by (cases m) auto
    have "word_before (prev_after prev s m)" using w k by (simp add: word_before_def)
    then have "\<not> word_at (drop m s)" using bd by (simp add: at_boundary_def)
    then show ?thesis using pos w nm by simp
  qed
next
  case (Alt a b)
  then show ?case by (cases "matches a prev s n") simp_all
qed simp_all

lemma find_match_None: "find_match r p s = None \<Longrightarrow> \<not> matches r p s n"
  using rmatch_complete [of r p s n "\<lambda>p rest. Some rest"] by (auto simp: find_match_def)

lemma find_match_Some:
  "find_match r p s = Some rest \<Longrightarrow> \<exists>n. matches r p s n \<and> rest = drop n s"
  using rmatch_sound [of r "\<lambda>p rest. Some rest" p s rest] by (auto simp: find_match_def)

lemma matches_in_Nil: "\<not> matches_in r p []"
  using matches_length by (fastforce simp: matches_in_def)

lemma matches_in_Cons:
  "matches_in r p (c # cs) \<longleftrightarrow> (\<exists>n. 0 < n \<and> matches r p (c # cs) n) \<or> matches_in r (Some c) cs"
proof
  assume "matches_in r p (c # cs)"
  then obtain u v n where m: "c # cs = u @ v" "0 < n" "matches r (prev_of p u) v n"
    by (auto simp: matches_in_def)
  show "(\<exists>n. 0 < n \<and> matches r p (c # cs) n) \<or> matches_in r (Some c) cs"
  proof (cases u)
    case Nil
    then show ?thesis using m by (auto simp: prev_of_def)
  next
    case (Cons a u')
    then have "cs = u' @ v" "prev_of p u = prev_of (Some c) u'"
      using m(1) by (auto simp: prev_of_def)
    then show ?thesis using m(2,3) by (auto simp: matches_in_def)
  qed
next
  assume "(\<exists>n. 0 < n \<and> matches r p (c # cs) n) \<or> matches_in r (Some c) cs"
  then show "matches_in r p (c # cs)"
  proof
    assume "\<exists>n. 0 < n \<and> matches r p (c # cs) n"
    then obtain n where "0 < n" "matches r (prev_of p []) (c # cs) n" by (auto simp: prev_of_def)
    then show ?thesis unfolding matches_in_def by (metis append_Nil)
  next
    assume "matches_in r (Some c) cs"
    then obtain u v n where m: "cs = u @ v" "0 < n" "matches r (prev_of (Some c) u) v n"
      by (auto simp: matches_in_def)
    have "c # cs = (c # u) @ v" "prev_of p (c # u) = prev_of (Some c) u"
      using m(1) by (auto simp: prev_of_def)
    then show ?thesis using m(2,3) unfolding matches_in_def by metis
  qed
qed

lemma no_find_matches_in: "no_find r p s \<Longrightarrow> \<not> matches_in r p s"
proof (induction s arbitrary: p)
  case Nil
  then show ?case by (simp add: matches_in_Nil)
next
  case (Cons c cs)
  then have "find_match r p (c # cs) = None" "\<not> matches_in r (Some c) cs" by simp_all
  then show ?case using find_match_None by (simp add: matches_in_Cons)
qed

lemma well_bounded_nonempty: "well_bounded r \<Longrightarrow> matches r p s n \<Longrightarrow> 0 < n"
  using ends_boundary_matches [of r p s n] by (simp add: well_bounded_def)

text \<open>A text in which the pattern matches nowhere is left as it is.\<close>

lemma re_sub_no_match:
  "well_bounded r \<Longrightarrow> \<not> matches_in r p s \<Longrightarrow> re_sub r repl p s = s"
proof (induction s arbitrary: p)
  case Nil
  then show ?case by (simp add: re_sub.simps)
next
  case (Cons c cs)
  have head: "\<And>n. \<not> (0 < n \<and> matches r p (c # cs) n)" and rest: "\<not> matches_in r (Some c) cs"
    using Cons.prems(2) by (simp_all add: matches_in_Cons)
  have "find_match r p (c # cs) = None"
  proof (cases "find_match r p (c # cs)")
    case (Some rest)
    then obtain n where "matches r p (c # cs) n" using find_match_Some by blast
    then show ?thesis using head well_bounded_nonempty [OF Cons.prems(1)] by blast
  qed simp
  then show ?case using Cons.IH [OF Cons.prems(1) rest] by (simp add: re_sub.simps)
qed

text \<open>A character that the pattern never matches separates the matches on its two sides.\<close>

lemma matches_in_glue:
  assumes av: "avoids b r" and m: "matches_in r p (A @ b # B)"
  shows "matches_in r p (A @ [b]) \<or> matches_in r (Some b) B"
proof -
  from m obtain u v n where uv: "A @ b # B = u @ v" "0 < n" "matches r (prev_of p u) v n"
    by (auto simp: matches_in_def)
  have nl: "n \<le> length v" using uv(3) by (rule matches_length)
  have nb: "b \<notin> set (take n v)" using avoids_matches [OF av uv(3)] .
  show ?thesis
  proof (cases "length u \<le> length A")
    case True
    then obtain A2 where A2: "A = u @ A2" "v = A2 @ b # B"
      using uv(1) by (metis append_eq_append_conv_if append_take_drop_id)
    have "n \<le> length A2"
    proof (rule ccontr)
      assume "\<not> n \<le> length A2"
      then have "length A2 < n" by simp
      then have "v ! length A2 \<in> set (take n v)"
        using nl by (metis in_set_conv_nth length_take min.absorb2 nth_take)
      then show False using nb A2(2) by simp
    qed
    have "take n (A2 @ [b]) = take n v" using \<open>n \<le> length A2\<close> A2(2) by simp
    moreover have "word_at (drop n (A2 @ [b])) = word_at (drop n v)"
      using \<open>n \<le> length A2\<close> A2(2) by (cases "drop n A2") (simp_all add: word_at_def)
    moreover have "n \<le> length (A2 @ [b])" using \<open>n \<le> length A2\<close> by simp
    ultimately have "matches r (prev_of p u) (A2 @ [b]) n"
      using matches_local [OF uv(3)] by blast
    then have "matches_in r p (A @ [b])"
      using uv(2) A2(1) unfolding matches_in_def by (metis append.assoc)
    then show ?thesis ..
  next
    case False
    then obtain B1 where B1: "u = A @ b # B1" "B = B1 @ v"
      using uv(1)
      by (metis (no_types, lifting) append_eq_append_conv_if append_take_drop_id
          append_eq_Cons_conv nat_le_linear append_Nil2 append.assoc)
    have "prev_of p u = prev_of (Some b) B1" using B1(1) by (simp add: prev_of_def)
    then have "matches_in r (Some b) B"
      using uv(2,3) B1(2) unfolding matches_in_def by metis
    then show ?thesis ..
  qed
qed

lemma prev_after_Cons: "prev_after (Some c) cs k = Some ((c # cs) ! k)"
  by (cases k) simp_all

lemma no_new_match_tail: "no_new_match ri rj p (c # cs) \<Longrightarrow> no_new_match ri rj (Some c) cs"
proof -
  assume a: "no_new_match ri rj p (c # cs)"
  show ?thesis unfolding no_new_match_def
  proof (intro allI impI)
    fix u v and n :: nat
    assume uv: "cs = u @ v" and none: "\<forall>n. 0 < n \<longrightarrow> \<not> matches rj (prev_of (Some c) u) v n"
      and n: "0 < n"
    have "c # cs = (c # u) @ v" "prev_of p (c # u) = prev_of (Some c) u"
      using uv by (simp_all add: prev_of_def)
    then show "\<not> matches ri (prev_of (Some c) u) v n"
      using a none n unfolding no_new_match_def by metis
  qed
qed

lemma no_new_match_drop:
  assumes a: "no_new_match ri rj p s" and n0: "0 < n0" "n0 \<le> length s"
  shows "no_new_match ri rj (Some (s ! (n0 - 1))) (drop n0 s)"
  unfolding no_new_match_def
proof (intro allI impI)
  fix u v and n :: nat
  assume uv: "drop n0 s = u @ v"
    and none: "\<forall>n. 0 < n \<longrightarrow> \<not> matches rj (prev_of (Some (s ! (n0 - 1))) u) v n"
    and n: "0 < n"
  have tk: "take n0 s \<noteq> []" using n0 by auto
  have len: "length (take n0 s) = n0" using n0 by simp
  have "last (take n0 s) = take n0 s ! (n0 - 1)" using tk len by (simp add: last_conv_nth)
  also have "\<dots> = s ! (n0 - 1)" using n0 by simp
  finally have "last (take n0 s) = s ! (n0 - 1)" .
  then have "prev_of p (take n0 s @ u) = prev_of (Some (s ! (n0 - 1))) u"
    using tk by (simp add: prev_of_def)
  moreover have "s = (take n0 s @ u) @ v" using uv by (metis append.assoc append_take_drop_id)
  ultimately show "\<not> matches ri (prev_of (Some (s ! (n0 - 1))) u) v n"
    using a none n unfolding no_new_match_def by metis
qed

text \<open>Up to the first token, the output of a substitution is its input.\<close>

lemma re_sub_prefix:
  assumes wj: "well_bounded rj" and tok: "repl = CHR ''['' # rtok"
  shows "CHR ''['' \<notin> set (take n (re_sub rj repl p s)) \<Longrightarrow> n \<le> length (re_sub rj repl p s) \<Longrightarrow>
         take n s = take n (re_sub rj repl p s) \<and> n \<le> length s \<and>
         (word_before (prev_after p s n) \<longrightarrow>
            word_at (drop n (re_sub rj repl p s)) = word_at (drop n s))"
proof (induction s arbitrary: p n)
  case Nil
  then show ?case by (simp add: re_sub.simps)
next
  case (Cons c cs)
  let ?s = "c # cs"
  show ?case
  proof (cases "find_match rj p ?s")
    case None
    then have out: "re_sub rj repl p ?s = c # re_sub rj repl (Some c) cs"
      by (simp add: re_sub.simps)
    show ?thesis
    proof (cases n)
      case 0
      then show ?thesis by (simp add: out word_at_def)
    next
      case (Suc k)
      have "CHR ''['' \<notin> set (take k (re_sub rj repl (Some c) cs))"
        "k \<le> length (re_sub rj repl (Some c) cs)"
        using Cons.prems Suc by (simp_all add: out)
      from Cons.IH [OF this]
      show ?thesis by (simp add: out Suc prev_after_Cons)
    qed
  next
    case (Some rest)
    then obtain n0 where n0: "matches rj p ?s n0" "rest = drop n0 ?s"
      using find_match_Some by blast
    have pos: "0 < n0" using well_bounded_nonempty [OF wj n0(1)] .
    have le: "n0 \<le> length ?s" using n0(1) by (rule matches_length)
    have shorter: "length rest < length ?s" using n0(2) pos le by simp
    have out: "re_sub rj repl p ?s =
        repl @ re_sub rj repl (Some (?s ! (length ?s - length rest - 1))) rest"
      using Some shorter by (simp add: re_sub.simps)
    have "n = 0"
    proof (rule ccontr)
      assume "n \<noteq> 0"
      moreover have "\<exists>t. re_sub rj repl p ?s = CHR ''['' # t" using out tok by simp
      ultimately have "CHR ''['' \<in> set (take n (re_sub rj repl p ?s))"
        by (cases n) auto
      then show False using Cons.prems(1) by simp
    qed
    have "at_boundary p ?s"
      using wj n0(1) starts_boundary_matches by (simp add: well_bounded_def) blast
    then have "word_before p \<longrightarrow> \<not> is_word c" by (simp add: at_boundary_def word_at_def)
    moreover have "\<not> is_word CHR ''[''" by (simp add: is_word_def in_range_def)
    moreover obtain t where "re_sub rj repl p ?s = CHR ''['' # t" using out tok by simp
    ultimately show ?thesis using \<open>n = 0\<close> by (simp add: word_at_def)
  qed
qed

text \<open>
  A match of \<open>ri\<close> at the very start of the output of a substitution of \<open>rj\<close> is a match
  at the start of its input.
\<close>

lemma head_match_transfer:
  assumes wi: "well_bounded ri" and wj: "well_bounded rj" and tok: "repl = CHR ''['' # rtok"
    and side: "same_side p p' s"
    and m: "matches ri p' (re_sub rj repl p s) n" and n: "0 < n"
  shows "matches ri p s n"
proof -
  let ?out = "re_sub rj repl p s"
  have avi: "avoids CHR ''['' ri" and sbi: "starts_boundary ri" and ebi: "ends_boundary ri"
    using wi by (simp_all add: well_bounded_def)
  have nb: "CHR ''['' \<notin> set (take n ?out)" using avoids_matches [OF avi m] .
  have nl: "n \<le> length ?out" using m by (rule matches_length)
  from re_sub_prefix [OF wj tok nb nl]
  have tk: "take n s = take n ?out" and ns: "n \<le> length s"
    and w: "word_before (prev_after p s n) \<longrightarrow> word_at (drop n ?out) = word_at (drop n s)"
    by simp_all
  obtain k where k: "n = Suc k" using n by (cases n) auto
  have "is_word (?out ! k)" using ends_boundary_matches [OF ebi m] k by simp
  moreover have "?out ! k = s ! k" using tk k by (metis lessI nth_take)
  ultimately have "word_before (prev_after p s n)" by (simp add: k word_before_def)
  then have wd: "word_at (drop n s) = word_at (drop n ?out)" using w by simp
  have hd: "word_at s = word_at ?out"
  proof -
    have "?out ! 0 = s ! 0" using tk k by (metis zero_less_Suc nth_take)
    moreover have "?out \<noteq> []" "s \<noteq> []" using nl ns k by auto
    ultimately show ?thesis by (cases s; cases ?out) (simp_all add: word_at_def)
  qed
  have bd: "at_boundary p' ?out" using starts_boundary_matches [OF sbi m] .
  have wb: "word_before p = word_before p'"
  proof (cases "p' = p")
    case True
    then show ?thesis by simp
  next
    case False
    then have c: "p' = Some CHR '']''" "word_before p" "\<not> word_at s"
      using side by (auto simp: same_side_def)
    have "\<not> word_before p'" using c(1) by (simp add: word_before_def is_word_def in_range_def)
    then have "word_at ?out" using bd by (simp add: at_boundary_def)
    then show ?thesis using hd c(3) by simp
  qed
  show ?thesis using matches_local [OF m tk ns wb wd] .
qed

lemma substitution_adds_no_match:
  assumes wi: "well_bounded ri" and wj: "well_bounded rj"
    and inside: "\<not> matches_in ri (Some CHR ''['') (name @ '']'')"
  shows "same_side p p' s \<Longrightarrow> no_new_match ri rj p s \<Longrightarrow>
         \<not> matches_in ri p' (re_sub rj (token name) p s)"
proof (induction "length s" arbitrary: s p p' rule: less_induct)
  case less
  have tok: "token name = CHR ''['' # (name @ '']'')" by (simp add: token_def)
  have av1: "avoids CHR ''['' ri" and av2: "avoids CHR '']'' ri"
    using wi by (simp_all add: well_bounded_def)
  show ?case
  proof (cases s)
    case Nil
    then show ?thesis by (simp add: re_sub.simps matches_in_Nil)
  next
    case (Cons c cs)
    show ?thesis
    proof (cases "find_match rj p s")
      case None
      have out: "re_sub rj (token name) p s = c # re_sub rj (token name) (Some c) cs"
        using None Cons by (simp add: re_sub.simps)
      have none_j: "\<forall>n. 0 < n \<longrightarrow> \<not> matches rj (prev_of p []) s n"
        using find_match_None [OF None] by (simp add: prev_of_def)
      then have none_i: "\<forall>n. 0 < n \<longrightarrow> \<not> matches ri p s n"
        using less.prems(2) unfolding no_new_match_def by (metis append_Nil prev_of_def)
      have head: "\<not> (\<exists>n. 0 < n \<and> matches ri p' (re_sub rj (token name) p s) n)"
        using head_match_transfer [OF wi wj tok less.prems(1)] none_i by blast
      have "same_side (Some c) (Some c) cs" by (simp add: same_side_def)
      moreover have "no_new_match ri rj (Some c) cs"
        using less.prems(2) Cons no_new_match_tail by blast
      ultimately have tail: "\<not> matches_in ri (Some c) (re_sub rj (token name) (Some c) cs)"
        using less.hyps [of cs "Some c" "Some c"] Cons by simp
      show ?thesis using head tail unfolding out [symmetric]
        by (metis matches_in_Cons out)
    next
      case (Some rest)
      then obtain n0 where n0: "matches rj p s n0" "rest = drop n0 s"
        using find_match_Some by blast
      have pos: "0 < n0" using well_bounded_nonempty [OF wj n0(1)] .
      have le: "n0 \<le> length s" using n0(1) by (rule matches_length)
      have shorter: "length rest < length s" using n0(2) pos le by simp
      have idx: "length s - length rest - 1 = n0 - 1" using n0(2) le by simp
      let ?out' = "re_sub rj (token name) (Some (s ! (n0 - 1))) rest"
      have out: "re_sub rj (token name) p s = [] @ CHR ''['' # (name @ CHR '']'' # ?out')"
        using Some shorter Cons idx by (simp add: re_sub.simps token_def)
      have eb: "is_word (s ! (n0 - 1))" "\<not> word_at (drop n0 s)"
        using wj n0(1) ends_boundary_matches [of rj p s n0] by (simp_all add: well_bounded_def)
      have "same_side (Some (s ! (n0 - 1))) (Some CHR '']'') rest"
        using eb n0(2) by (simp add: same_side_def word_before_def)
      moreover have "no_new_match ri rj (Some (s ! (n0 - 1))) rest"
        unfolding n0(2) using less.prems(2) pos le by (rule no_new_match_drop)
      ultimately have after: "\<not> matches_in ri (Some CHR '']'') ?out'"
        using less.hyps [OF shorter] by blast
      have first: "\<not> matches_in ri p' ([] @ [CHR ''[''])"
      proof
        assume "matches_in ri p' ([] @ [CHR ''[''])"
        then obtain n where n: "0 < n" "matches ri p' [CHR ''[''] n"
          by (auto simp: matches_in_Cons matches_in_Nil)
        then have "CHR ''['' \<notin> set (take n [CHR ''[''])" using avoids_matches [OF av1] by blast
        then show False using n(1) by (cases n) simp_all
      qed
      show ?thesis
      proof
        assume "matches_in ri p' (re_sub rj (token name) p s)"
        then have "matches_in ri (Some CHR ''['') (name @ CHR '']'' # ?out')"
          unfolding out using matches_in_glue [OF av1] first by blast
        then have "matches_in ri (Some CHR ''['') (name @ [CHR '']'']) \<or>
                   matches_in ri (Some CHR '']'') ?out'"
          by (rule matches_in_glue [OF av2])
        then show False using inside after by simp
      qed
    qed
  qed
qed

text \<open>After a rule has been applied, its pattern matches nowhere in the text.\<close>

lemma no_match_after_own_rule:
  assumes "well_bounded r" and "\<not> matches_in r (Some CHR ''['') (name @ '']'')"
  shows "\<not> matches_in r None (re_sub r (token name) None s)"
proof -
  have "same_side None None s" by (simp add: same_side_def)
  moreover have "no_new_match r r None s" by (simp add: no_new_match_def)
  ultimately show ?thesis using substitution_adds_no_match [OF assms(1) assms(1) assms(2)] by blast
qed

text \<open>A pattern that matches nowhere in a text matches nowhere after another rule.\<close>

lemma no_match_after_other_rule:
  assumes "well_bounded ri" and "well_bounded rj"
    and "\<not> matches_in ri (Some CHR ''['') (name @ '']'')"
    and none: "\<not> matches_in ri None s"
  shows "\<not> matches_in ri None (re_sub rj (token name) None s)"
proof -
  have "same_side None None s" by (simp add: same_side_def)
  moreover have "no_new_match ri rj None s"
    using none unfolding no_new_match_def matches_in_def by blast
  ultimately show ?thesis using substitution_adds_no_match [OF assms(1,2,3)] by blast
qed

lemma apply_rules_snoc:
  "apply_rules (rules @ [rule]) t = re_sub (fst rule) (token (snd rule)) None (apply_rules rules t)"
  by (simp add: apply_rules_def)

lemma no_match_after_rules:
  assumes closed: "rules_closed all_rules"
  shows "set rules \<subseteq> set all_rules \<Longrightarrow>
         \<forall>rule \<in> set rules. \<not> matches_in (fst rule) None (apply_rules rules t)"
proof (induction rules rule: rev_induct)
  case Nil
  then show ?case by simp
next
  case (snoc rj rules)
  have rj: "rj \<in> set all_rules" and sub: "set rules \<subseteq> set all_rules" using snoc.prems by auto
  have wj: "well_bounded (fst rj)" using closed rj by (simp add: rules_closed_def)
  show ?case
  proof
    fix ri assume ri: "ri \<in> set (rules @ [rj])"
    then have ri_all: "ri \<in> set all_rules" using snoc.prems by auto
    have wi: "well_bounded (fst ri)" using closed ri_all by (simp add: rules_closed_def)
    have inside: "\<not> matches_in (fst ri) (Some CHR ''['') (snd rj @ '']'')"
      using closed ri_all rj by (simp add: rules_closed_def)
    show "\<not> matches_in (fst ri) None (apply_rules (rules @ [rj]) t)"
    proof (cases "ri \<in> set rules")
      case True
      then have "\<not> matches_in (fst ri) None (apply_rules rules t)"
        using snoc.IH [OF sub] by blast
      then show ?thesis
        unfolding apply_rules_snoc by (rule no_match_after_other_rule [OF wi wj inside])
    next
      case False
      then have "ri = rj" using ri by simp
      then show ?thesis
        unfolding apply_rules_snoc using no_match_after_own_rule [OF wj] inside by simp
    qed
  qed
qed

lemma apply_rules_fixed:
  "\<forall>rule \<in> set rules. well_bounded (fst rule) \<and> \<not> matches_in (fst rule) None t \<Longrightarrow>
   apply_rules rules t = t"
proof (induction rules rule: rev_induct)
  case Nil
  then show ?case by (simp add: apply_rules_def)
next
  case (snoc rule rules)
  then have "apply_rules rules t = t" by simp
  then show ?case using snoc.prems by (simp add: apply_rules_snoc re_sub_no_match)
qed

lemma apply_rules_idempotent:
  assumes "rules_closed rules"
  shows "apply_rules rules (apply_rules rules t) = apply_rules rules t"
proof (rule apply_rules_fixed, rule ballI)
  fix rule assume r: "rule \<in> set rules"
  then have "well_bounded (fst rule)" using assms by (simp add: rules_closed_def)
  moreover have "\<not> matches_in (fst rule) None (apply_rules rules t)"
    using no_match_after_rules [OF assms subset_refl] r by blast
  ultimately show "well_bounded (fst rule) \<and> \<not> matches_in (fst rule) None (apply_rules rules t)"
    by simp
qed

lemma mask_as_rules: "mask_sensitive_info t = apply_rules mask_rules t"
  by (simp add: mask_sensitive_info_def apply_rules_def mask_rules_def company_names_def token_def)

lemma lower_char_digit_or_at: "digit_or_at (lower_char c) \<Longrightarrow> digit_or_at c"
proof (cases "is_upper_char c")
  case True
  assume a: "digit_or_at (lower_char c)"
  have lt: "(of_char c :: nat) + 32 < 256" and ge: "65 \<le> (of_char c :: nat)"
    using True by (auto simp: is_upper_char_def in_range_def)
  have "(of_char (lower_char c) :: nat) = of_char c + 32"
    using True lt by (simp add: lower_char_def)
  then have "97 \<le> (of_char (lower_char c) :: nat)" using ge by simp
  moreover have "(of_char (lower_char c) :: nat) \<le> 64"
  proof -
    from a consider "is_ascii_digit (lower_char c)" | "lower_char c = CHR ''@''"
      by (auto simp: digit_or_at_def)
    then show ?thesis
    proof cases
      case 1 then show ?thesis by (simp add: is_ascii_digit_def in_range_def)
    next
      case 2 then show ?thesis by simp
    qed
  qed
  ultimately show ?thesis by simp
next
  case False
  assume "digit_or_at (lower_char c)"
  then show ?thesis using False by (simp add: lower_char_def)
qed

lemma upper_char_digit_or_at: "digit_or_at (upper_char c) \<Longrightarrow> digit_or_at c"
proof (cases "in_range c 97 122 \<or> in_range c 224 246 \<or> in_range c 248 254")
  case True
  assume a: "digit_or_at (upper_char c)"
  have ge: "97 \<le> (of_char c :: nat)" using True by (auto simp: in_range_def)
  have "(of_char c :: nat) - 32 < 256"
    by (rule le_less_trans [OF diff_le_self nat_of_char_less_256])
  then have "(of_char (upper_char c) :: nat) = of_char c - 32"
    using True by (simp add: upper_char_def)
  then have "65 \<le> (of_char (upper_char c) :: nat)" using ge by simp
  moreover have "(of_char (upper_char c) :: nat) \<le> 64"
  proof -
    from a consider "is_ascii_digit (upper_char c)" | "upper_char c = CHR ''@''"
      by (auto simp: digit_or_at_def)
    then show ?thesis
    proof cases
      case 1 then show ?thesis by (simp add: is_ascii_digit_def in_range_def)
    next
      case 2 then show ?thesis by simp
    qed
  qed
  ultimately show ?thesis by simp
next
  case False
  assume "digit_or_at (upper_char c)"
  then show ?thesis using False by (simp add: upper_char_def)
qed

lemma only_digit_or_at_cmatch: "only_digit_or_at cls \<Longrightarrow> cmatch cls c \<Longrightarrow> digit_or_at c"
proof (induction cls arbitrary: c)
  case Digit
  then show ?case by (simp add: digit_or_at_def)
next
  case (NoCase cls)
  have s: "only_digit_or_at cls" using NoCase.prems(1) by simp
  from NoCase.prems(2) show ?case
  proof (simp only: cmatch.simps, elim disjE)
    assume "cmatch cls (lower_char c)"
    then have "digit_or_at (lower_char c)" using NoCase.IH s by blast
    then show ?thesis by (rule lower_char_digit_or_at)
  next
    assume "cmatch cls (upper_char c)"
    then have "digit_or_at (upper_char c)" using NoCase.IH s by blast
    then show ?thesis by (rule upper_char_digit_or_at)
  qed
qed simp_all

lemma needs_digit_or_at_matches:
  "needs_digit_or_at r \<Longrightarrow> matches r prev s n \<Longrightarrow> \<exists>c \<in> set (take n s). digit_or_at c"
proof (induction r arbitrary: prev s n)
  case (Rep cls lo hi)
  then obtain k where k: "n = Suc k" by (cases n) auto
  have "k < length (take n s)" using Rep.prems(2) k by simp
  then have "take n s ! k \<in> set (take n s)" by (rule nth_mem)
  moreover from this have "cmatch cls (take n s ! k)" using Rep.prems(2) by simp
  ultimately show ?case using Rep.prems(1) only_digit_or_at_cmatch by auto
next
  case (Seq a b)
  from Seq.prems(2) obtain m where m: "m \<le> n" "matches a prev s m"
    "matches b (prev_after prev s m) (drop m s) (n - m)" by auto
  have tk: "take n s = take m s @ take (n - m) (drop m s)"
    using m(1) by (metis le_add_diff_inverse take_add)
  show ?case
  proof (cases "needs_digit_or_at a")
    case True
    then show ?thesis using Seq.IH(1) m(2) tk by fastforce
  next
    case False
    then have "needs_digit_or_at b" using Seq.prems(1) by simp
    then show ?thesis using Seq.IH(2) m(3) tk by fastforce
  qed
next
  case (Alt a b)
  then show ?case by (cases "matches a prev s n") simp_all
qed simp_all

lemma needs_digit_or_at_plain:
  assumes "needs_digit_or_at r" and "\<forall>c \<in> set t. \<not> digit_or_at c"
  shows "\<not> matches_in r p t"
proof
  assume "matches_in r p t"
  then obtain u v n where m: "t = u @ v" "matches r (prev_of p u) v n"
    by (auto simp: matches_in_def)
  then obtain c where "c \<in> set (take n v)" "digit_or_at c"
    using needs_digit_or_at_matches [OF assms(1)] by blast
  then have "c \<in> set t" using m(1) by (auto dest: in_set_takeD)
  then show False using assms(2) \<open>digit_or_at c\<close> by blast
qed

lemma tokens_plain: "\<forall>name \<in> set token_names. \<forall>c \<in> set (name @ '']''). \<not> digit_or_at c"
  by code_simp

lemma rule_ok_numeric: "well_bounded r \<Longrightarrow> needs_digit_or_at r \<Longrightarrow> rule_ok r"
  using tokens_plain needs_digit_or_at_plain by (simp add: rule_ok_def)

lemma rule_ok_found: 
  "well_bounded r \<Longrightarrow> \<forall>name \<in> set token_names. no_find r (Some CHR ''['') (name @ '']'') \<Longrightarrow>
   rule_ok r"
  using no_find_matches_in by (simp add: rule_ok_def)

lemma needs_email: "needs_digit_or_at email_pattern" by code_simp

lemma needs_phone: "needs_digit_or_at phone_pattern" by code_simp

lemma needs_ssn: "needs_digit_or_at ssn_pattern" by code_simp

lemma needs_address: "needs_digit_or_at address_pattern" by code_simp

lemma needs_zip: "needs_digit_or_at zip_pattern" by code_simp

lemma needs_policy: "needs_digit_or_at policy_pattern" by code_simp

lemma needs_month_date: "needs_digit_or_at month_date_pattern" by code_simp

lemma needs_numeric_date: "needs_digit_or_at numeric_date_pattern" by code_simp

lemma needs_time_period: "needs_digit_or_at time_period_pattern" by code_simp

lemma company_finds_nothing:
  "\<forall>company \<in> set company_names. \<forall>name \<in> set token_names.
     no_find (company_pattern company) (Some CHR ''['') (name @ '']'')"
  by code_simp

lemma well_bounded_email: "well_bounded email_pattern" by code_simp

lemma well_bounded_phone: "well_bounded phone_pattern" by code_simp

lemma well_bounded_ssn: "well_bounded ssn_pattern" by code_simp

lemma well_bounded_address: "well_bounded address_pattern" by code_simp

lemma well_bounded_zip: "well_bounded zip_pattern" by code_simp

lemma well_bounded_policy: "well_bounded policy_pattern" by code_simp

lemma well_bounded_month_date: "well_bounded month_date_pattern" by code_simp

lemma well_bounded_numeric_date: "well_bounded numeric_date_pattern" by code_simp

lemma well_bounded_time_period: "well_bounded time_period_pattern" by code_simp

lemma well_bounded_company: "\<forall>c \<in> set company_names. well_bounded (company_pattern c)" by code_simp

lemma rule_ok_company: "\<forall>company \<in> set company_names. rule_ok (company_pattern company)"
  using well_bounded_company company_finds_nothing by (simp add: rule_ok_found)

lemma mask_rules_ok: "\<forall>rule \<in> set mask_rules. rule_ok (fst rule) \<and> snd rule \<in> set token_names"
  using rule_ok_company
  by (simp add: mask_rules_def token_names_def company_names_def rule_ok_numeric
      well_bounded_email well_bounded_phone well_bounded_ssn well_bounded_address
      well_bounded_zip well_bounded_policy well_bounded_month_date well_bounded_numeric_date
      well_bounded_time_period needs_email needs_phone needs_ssn needs_address needs_zip
      needs_policy needs_month_date needs_numeric_date needs_time_period)

lemma mask_rules_closed: "rules_closed mask_rules"
  unfolding rules_closed_def
proof (intro ballI conjI)
  fix rule assume "rule \<in> set mask_rules"
  then show "well_bounded (fst rule)" using mask_rules_ok by (simp add: rule_ok_def)
next
  fix rule other assume r: "rule \<in> set mask_rules" and o: "other \<in> set mask_rules"
  have "rule_ok (fst rule)" using mask_rules_ok r by blast
  moreover have "snd other \<in> set token_names" using mask_rules_ok o by blast
  ultimately show "\<not> matches_in (fst rule) (Some CHR ''['') (snd other @ '']'')"
    by (simp add: rule_ok_def)
qed

text \<open>
  C7: masking is idempotent. After the rules have run, no pattern of the masker has a
  match anywhere in the text, so running them again changes nothing.
\<close>

theorem mask_idempotent: "mask_sensitive_info (mask_sensitive_info x) = mask_sensitive_info x"
  unfolding mask_as_rules using mask_rules_closed by (rule apply_rules_idempotent)

end
